(* ===== verification/Prelude.thy ===== *)
theory Prelude
  imports Main
begin

text \<open>
  Shared vocabulary of the treeprint development: Go's interface values, the
  \<open>%v\<close> formatting of the payloads used in the examples, the runtime panics
  the renderer can raise, the parts of Go's \<open>strings\<close> package the renderer
  calls (\<open>Repeat\<close>, \<open>Split\<close> on a one-byte separator, \<open>Join\<close>, \<open>HasPrefix\<close>), and the output sink
  (\<open>io.Writer\<close>) as the bytes written so far together with the panic that
  stopped the writer, if any. Strings are Go strings: byte sequences, one HOL
  \<open>char\<close> per byte, so a box-drawing glyph is three \<open>char\<close>s of UTF-8.
\<close>

named_theorems wout_simps "evaluation rules of the output sink combinators"

section \<open>Go interface values\<close>

text \<open>
  A field of Go type \<open>any\<close> holds either the nil interface or a value of some
  dynamic type. The payload type \<open>'a\<close> stands for the dynamic values;
  \<open>None\<close> is the nil interface. Go's \<open>reflect.DeepEqual\<close> on two such
  values is HOL equality on \<open>'a any\<close>.
\<close>

type_synonym 'a any = "'a option"

abbreviation NL :: char where
  "NL \<equiv> CHR 0x0A"

text \<open>\<open>%v\<close> of an interface value: the nil interface prints as \<open><nil>\<close>.\<close>

definition fmt_any :: "('a \<Rightarrow> string) \<Rightarrow> 'a any \<Rightarrow> string" where
  "fmt_any f v = (case v of None \<Rightarrow> ''<nil>'' | Some x \<Rightarrow> f x)"

section \<open>Runtime panics\<close>

text \<open>
  The panics the renderer can raise: \<open>strings.Repeat\<close> with a negative count,
  an index out of range on a slice store, \<open>make\<close> with a negative length, and
  a method call through a nil \<open>*Node\<close>.
\<close>

datatype error = NegativeRepeatCount | IndexOutOfRange | MakeSliceLen | NilDereference

section \<open>The strings package\<close>

text \<open>\<open>strings.Repeat(s, count)\<close>: panics when \<open>count < 0\<close>.\<close>

definition go_Repeat :: "string \<Rightarrow> int \<Rightarrow> error + string" where
  "go_Repeat s n = (if n < 0 then Inl NegativeRepeatCount else Inr (concat (replicate (nat n) s)))"

text \<open>\<open>strings.Split(s, sep)\<close> for a one-byte separator: the pieces between
  the separators, one more than there are separators.\<close>

fun go_Split :: "char \<Rightarrow> string \<Rightarrow> string list" where
  "go_Split sep [] = [[]]"
| "go_Split sep (c # s) =
     (if c = sep then [] # go_Split sep s
      else (c # hd (go_Split sep s)) # tl (go_Split sep s))"

text \<open>\<open>strings.Join(elems, sep)\<close>.\<close>

fun go_Join :: "string list \<Rightarrow> string \<Rightarrow> string" where
  "go_Join [] sep = []"
| "go_Join [x] sep = x"
| "go_Join (x # y # xs) sep = x @ sep @ go_Join (y # xs) sep"

text \<open>\<open>strings.HasPrefix(s, prefix)\<close>: \<open>len(s) >= len(prefix) && s[:len(prefix)] == prefix\<close>.\<close>

definition go_HasPrefix :: "string \<Rightarrow> string \<Rightarrow> bool" where
  "go_HasPrefix s p = (length p \<le> length s \<and> take (length p) s = p)"

section \<open>The payloads of the examples\<close>

text \<open>Payloads of the kinds the examples use: Go \<open>string\<close>, \<open>int\<close>, \<open>bool\<close>,
  and slices \<open>[]any\<close> of such values (an element may be the nil interface).\<close>

datatype gval = GStr string | GInt int | GBool bool | GSlice "gval any list"

fun go_dec :: "nat \<Rightarrow> string" where
  "go_dec n = (if n < 10 then [''0123456789'' ! n]
               else go_dec (n div 10) @ [''0123456789'' ! (n mod 10)])"

declare go_dec.simps [simp del]

definition go_itoa :: "int \<Rightarrow> string" where
  "go_itoa i = (if i < 0 then CHR ''-'' # go_dec (nat (- i)) else go_dec (nat i))"

text \<open>\<open>fmt.Sprintf("%v", x)\<close> for the payload kinds of \<open>gval\<close>: a slice prints as its
  elements' \<open>%v\<close>, separated by single spaces, between brackets.\<close>

fun fmt_gval :: "gval \<Rightarrow> string" where
  "fmt_gval (GStr s) = s"
| "fmt_gval (GInt i) = go_itoa i"
| "fmt_gval (GBool b) = (if b then ''true'' else ''false'')"
| "fmt_gval (GSlice xs) =
     ''['' @ go_Join (map (\<lambda>x. case x of None \<Rightarrow> ''<nil>'' | Some y \<Rightarrow> fmt_gval y) xs) '' '' @ '']''"

text \<open>Reading a decimal integer back, as \<open>strconv.Atoi\<close> does: an optional
  minus sign, then one or more digits \<open>'0'\<close>..\<open>'9'\<close>; the reference against
  which the \<open>%v\<close> printing of ints is checked.\<close>

section \<open>Line prefixes\<close>

text \<open>Every newline of \<open>s\<close> followed by \<open>pad\<close>: what prefixing each line but the first with \<open>pad\<close> does.\<close>

definition indent_lines :: "string \<Rightarrow> string \<Rightarrow> string" where
  "indent_lines pad s = concat (map (\<lambda>ch. if ch = NL then NL # pad else [ch]) s)"

section \<open>The output sink\<close>

text \<open>
  A writer's effect on an \<open>io.Writer\<close>: the bytes it wrote and the panic that
  stopped it, if any. A panic keeps the bytes written before it, as a Go
  \<open>io.Writer\<close> that received partial output does.
\<close>

type_synonym wout = "error option \<times> string"

definition emit :: "string \<Rightarrow> wout" where
  "emit s = (None, s)"

definition wpanic :: "error \<Rightarrow> wout" where
  "wpanic e = (Some e, [])"

text \<open>Sequencing: the second writer runs only when the first did not panic.\<close>

definition wseq :: "wout \<Rightarrow> wout \<Rightarrow> wout" where
  "wseq a b = (case fst a of Some e \<Rightarrow> a | None \<Rightarrow> (fst b, snd a @ snd b))"

text \<open>Running a writer on a value that is computed first and may panic.\<close>

definition wbind :: "error + 'b \<Rightarrow> ('b \<Rightarrow> wout) \<Rightarrow> wout" where
  "wbind r f = (case r of Inl e \<Rightarrow> wpanic e | Inr x \<Rightarrow> f x)"

section \<open>Lemmas on the helpers\<close>

subsection \<open>The output sink\<close>

lemma wseq_emit_emit [simp, wout_simps]: "wseq (emit a) (emit b) = emit (a @ b)"
  by (simp add: wseq_def emit_def)

lemma wseq_emit [wout_simps]: "wseq (emit a) b = (fst b, a @ snd b)"
  by (simp add: wseq_def emit_def)

lemma wseq_emit_Nil [simp, wout_simps]: "wseq (emit []) b = b"
  by (simp add: wseq_def emit_def)

lemma wseq_Nil_emit [simp, wout_simps]: "fst a = None \<Longrightarrow> wseq a (emit []) = a"
  by (cases a) (simp add: wseq_def emit_def)

lemma wseq_panicked [simp, wout_simps]: "fst a = Some e \<Longrightarrow> wseq a b = a"
  by (simp add: wseq_def)

lemma wseq_wpanic [simp, wout_simps]: "wseq (wpanic e) b = wpanic e"
  by (simp add: wseq_def wpanic_def)

lemma wseq_assoc [wout_simps]: "wseq (wseq a b) c = wseq a (wseq b c)"
  by (auto simp: wseq_def split: option.splits)

lemma fst_wseq_None [simp]: "fst (wseq a b) = None \<longleftrightarrow> fst a = None \<and> fst b = None"
  by (auto simp: wseq_def split: option.splits)

lemma wbind_Inr [simp, wout_simps]: "wbind (Inr x) f = f x"
  by (simp add: wbind_def)

lemma wbind_Inl [simp, wout_simps]: "wbind (Inl e) f = wpanic e"
  by (simp add: wbind_def)

lemma fst_emit [simp]: "fst (emit s) = None" and snd_emit [simp]: "snd (emit s) = s"
  by (simp_all add: emit_def)

lemma fst_wpanic [simp]: "fst (wpanic e) = Some e"
  by (simp add: wpanic_def)

subsection \<open>strings.Repeat\<close>

lemma replicate_numeral [simp]: "replicate (numeral k) x = x # replicate (pred_numeral k) x"
  by (simp add: numeral_eq_Suc)

lemma go_Repeat_nonneg [simp]: "0 \<le> n \<Longrightarrow> go_Repeat s n = Inr (concat (replicate (nat n) s))"
  by (simp add: go_Repeat_def)

lemma go_Repeat_neg [simp]: "n < 0 \<Longrightarrow> go_Repeat s n = Inl NegativeRepeatCount"
  by (simp add: go_Repeat_def)

subsection \<open>strings.Split and strings.Join\<close>

lemma go_Split_not_Nil [simp]: "go_Split sep s \<noteq> []"
  by (induction s) auto

lemma go_Join_Cons: "xs \<noteq> [] \<Longrightarrow> go_Join (x # xs) sep = x @ sep @ go_Join xs sep"
  by (cases xs) simp_all

lemma length_go_Split: "length (go_Split sep s) = Suc (count_list s sep)"
  by (induction s) auto

text \<open>A string with no separator is one piece.\<close>

lemma go_Split_single: "sep \<notin> set s \<Longrightarrow> go_Split sep s = [s]"
  by (induction s) auto


text \<open>Prefixing every piece after the first with \<open>pad\<close> and joining is \<open>indent_lines\<close>.\<close>

lemma go_Join_Cons_Cons: "go_Join ((c # x) # xs) sep = c # go_Join (x # xs) sep"
  by (cases xs) simp_all

lemma go_Join_Cons_append: "go_Join ((p @ x) # xs) sep = p @ go_Join (x # xs) sep"
  by (cases xs) simp_all

lemma go_Join_map_pad: "xs \<noteq> [] \<Longrightarrow> go_Join (map (\<lambda>l. pad @ l) xs) sep = pad @ go_Join (hd xs # map (\<lambda>l. pad @ l) (tl xs)) sep"
  by (cases xs) (simp_all add: go_Join_Cons_append)

lemma go_Join_Split_pad:
  "go_Join (hd (go_Split NL s) # map (\<lambda>l. pad @ l) (tl (go_Split NL s))) [NL] = indent_lines pad s"
proof (induction s)
  case Nil
  then show ?case by (simp add: indent_lines_def)
next
  case (Cons c s)
  show ?case
  proof (cases "c = NL")
    case True
    then show ?thesis using Cons.IH
      by (simp add: indent_lines_def go_Join_Cons go_Join_map_pad)
  next
    case False
    then show ?thesis using Cons.IH by (simp add: indent_lines_def go_Join_Cons_Cons)
  qed
qed

lemma indent_lines_no_NL: "NL \<notin> set s \<Longrightarrow> indent_lines pad s = s"
  by (induction s) (auto simp: indent_lines_def)

lemma concat_replicate_single: "concat (replicate n [x]) = replicate n x"
  by (induction n) simp_all


subsection \<open>Lists of blocks\<close>

text \<open>A list built block by block, each block an element followed by a list of its own.\<close>

lemma set_concat_map2:
  "list_all2 (\<lambda>x y. set (F x y) = G x) xs ys \<Longrightarrow>
   set (concat (map2 (\<lambda>x y. x # F x y) xs ys)) = (\<Union>x \<in> set xs. insert x (G x))"
  by (induction rule: list_all2_induct) auto

lemma distinct_concat_map2:
  fixes xs :: "'a list" and ys :: "'b list"
  shows "list_all2 (\<lambda>x y. distinct (F x y) \<and> x \<notin> set (F x y) \<and> set (F x y) = G x) xs ys \<Longrightarrow> distinct xs \<Longrightarrow>
   (\<And>x x'. x \<in> set xs \<Longrightarrow> x' \<in> set xs \<Longrightarrow> x \<noteq> x' \<Longrightarrow> insert x (G x) \<inter> insert x' (G x') = {}) \<Longrightarrow>
   distinct (concat (map2 (\<lambda>x y. x # F x y) xs ys))"
proof (induction rule: list_all2_induct)
  case Nil
  then show ?case by simp
next
  case (Cons x xs y ys)
  have "list_all2 (\<lambda>x y. set (F x y) = G x) xs ys"
    using Cons.hyps(2) by (rule list_all2_mono) simp
  from set_concat_map2[OF this] Cons.hyps(1) Cons.prems Cons.IH show ?case by auto
qed

end
