(* ===== verification/Node.thy ===== *)
theory Node
  imports Prelude
begin

text \<open>
  The tree model of \<open>src/treeprint.go\<close>: the \<open>Node\<close> struct, the heap of
  nodes the Go pointers point into, and the methods of the \<open>Tree\<close> interface
  that build and mutate a tree, with \<open>FindLastNode\<close>. The searches and the
  traversal are in theory \<open>Search\<close>, the rendering methods (\<open>Writer\<close>,
  \<open>Bytes\<close>, \<open>String\<close>) in theory \<open>Render\<close>.

  Go's \<open>*Node\<close> pointers are addresses into an arena (a list of nodes,
  allocated at the end, never freed while reachable); the \<open>Root\<close> back
  pointer and the \<open>Nodes\<close> children are addresses. Every method takes the
  heap and the receiver's address and returns the new heap and the method's
  result. A datatype of abstract trees and the relation \<open>repr\<close> between heap
  addresses and trees (after the relational list abstraction of pointer
  programs) give the heap its meaning; \<open>wf_heap\<close> is the shape invariant the
  API keeps, under which the descendant relation \<open>desc\<close> is acyclic, and
  \<open>owned\<close> says that each node has at most one parent, under which the
  subtrees of two siblings are disjoint.
\<close>

section \<open>Nodes and the heap\<close>

text \<open>\<open>type Node struct { Root *Node; Meta any; Value any; Nodes []*Node }\<close>\<close>

record 'a node =
  Root :: "nat option"
  Meta :: "'a any"
  Value :: "'a any"
  Nodes :: "nat list"

type_synonym 'a heap = "'a node list"

text \<open>\<open>&Node{...}\<close>: a fresh address at the end of the arena.\<close>

definition alloc :: "'a heap \<Rightarrow> 'a node \<Rightarrow> nat \<times> 'a heap" where
  "alloc h n = (length h, h @ [n])"

text \<open>\<open>n.Nodes = append(n.Nodes, c)\<close>\<close>

definition append_child :: "'a heap \<Rightarrow> nat \<Rightarrow> nat \<Rightarrow> 'a heap" where
  "append_child h n c = h[n := (h ! n)\<lparr>Nodes := Nodes (h ! n) @ [c]\<rparr>]"

section \<open>Constructors and mutators\<close>

definition NewWithRoot :: "'a heap \<Rightarrow> 'a any \<Rightarrow> 'a heap \<times> nat" where
  "NewWithRoot h root =
     (let (p, h') = alloc h \<lparr>Root = None, Meta = None, Value = root, Nodes = []\<rparr> in (h', p))"

definition New :: "gval heap \<Rightarrow> gval heap \<times> nat" where
  "New h = NewWithRoot h (Some (GStr ''.''))"

definition FindLastNode :: "'a heap \<Rightarrow> nat \<Rightarrow> nat option" where
  "FindLastNode h n =
     (let ns = Nodes (h ! n) in if length ns = 0 then None else Some (ns ! (length ns - 1)))"

text \<open>\<open>AddNode\<close> and \<open>AddMetaNode\<close> return the receiver, \<open>AddBranch\<close> and
  \<open>AddMetaBranch\<close> the new child.\<close>

definition AddNode :: "'a heap \<Rightarrow> nat \<Rightarrow> 'a any \<Rightarrow> 'a heap \<times> nat" where
  "AddNode h n a =
     (let (c, h') = alloc h \<lparr>Root = Some n, Meta = None, Value = a, Nodes = []\<rparr>
      in (append_child h' n c, n))"

definition AddMetaNode :: "'a heap \<Rightarrow> nat \<Rightarrow> 'a any \<Rightarrow> 'a any \<Rightarrow> 'a heap \<times> nat" where
  "AddMetaNode h n meta a =
     (let (c, h') = alloc h \<lparr>Root = Some n, Meta = meta, Value = a, Nodes = []\<rparr>
      in (append_child h' n c, n))"

definition AddBranch :: "'a heap \<Rightarrow> nat \<Rightarrow> 'a any \<Rightarrow> 'a heap \<times> nat" where
  "AddBranch h n a =
     (let (b, h') = alloc h \<lparr>Root = Some n, Meta = None, Value = a, Nodes = []\<rparr>
      in (append_child h' n b, b))"

definition AddMetaBranch :: "'a heap \<Rightarrow> nat \<Rightarrow> 'a any \<Rightarrow> 'a any \<Rightarrow> 'a heap \<times> nat" where
  "AddMetaBranch h n meta a =
     (let (b, h') = alloc h \<lparr>Root = Some n, Meta = meta, Value = a, Nodes = []\<rparr>
      in (append_child h' n b, b))"

text \<open>\<open>Branch\<close> clears the back pointer only; the parent still lists the node.\<close>

definition Branch :: "'a heap \<Rightarrow> nat \<Rightarrow> 'a heap \<times> nat" where
  "Branch h n = (h[n := (h ! n)\<lparr>Root := None\<rparr>], n)"

definition SetValue :: "'a heap \<Rightarrow> nat \<Rightarrow> 'a any \<Rightarrow> 'a heap" where
  "SetValue h n v = h[n := (h ! n)\<lparr>Value := v\<rparr>]"

definition SetMetaValue :: "'a heap \<Rightarrow> nat \<Rightarrow> 'a any \<Rightarrow> 'a heap" where
  "SetMetaValue h n m = h[n := (h ! n)\<lparr>Meta := m\<rparr>]"

subsection \<open>The printf-style wrappers\<close>

text \<open>
  \<open>AddNodef\<close>, \<open>AddMetaNodef\<close>, \<open>AddBranchf\<close>, \<open>AddMetaBranchf\<close>,
  \<open>SetValuef\<close> and \<open>NewWithRootf\<close> format their arguments with
  \<open>fmt.Sprintf\<close> and store the resulting Go string as the value. The
  formatter is a parameter \<open>sprintf\<close> (its format language is not modelled)
  and \<open>str\<close> puts a Go string into the payload type.
\<close>

definition AddNodef :: "('f \<Rightarrow> 'b list \<Rightarrow> string) \<Rightarrow> (string \<Rightarrow> 'a) \<Rightarrow> 'a heap \<Rightarrow> nat \<Rightarrow> 'f \<Rightarrow> 'b list \<Rightarrow> 'a heap \<times> nat" where
  "AddNodef sprintf str h n format args = AddNode h n (Some (str (sprintf format args)))"

definition AddMetaNodef :: "('f \<Rightarrow> 'b list \<Rightarrow> string) \<Rightarrow> (string \<Rightarrow> 'a) \<Rightarrow> 'a heap \<Rightarrow> nat \<Rightarrow> 'a any \<Rightarrow> 'f \<Rightarrow> 'b list \<Rightarrow> 'a heap \<times> nat" where
  "AddMetaNodef sprintf str h n meta format args = AddMetaNode h n meta (Some (str (sprintf format args)))"

definition AddBranchf :: "('f \<Rightarrow> 'b list \<Rightarrow> string) \<Rightarrow> (string \<Rightarrow> 'a) \<Rightarrow> 'a heap \<Rightarrow> nat \<Rightarrow> 'f \<Rightarrow> 'b list \<Rightarrow> 'a heap \<times> nat" where
  "AddBranchf sprintf str h n format args = AddBranch h n (Some (str (sprintf format args)))"

definition AddMetaBranchf :: "('f \<Rightarrow> 'b list \<Rightarrow> string) \<Rightarrow> (string \<Rightarrow> 'a) \<Rightarrow> 'a heap \<Rightarrow> nat \<Rightarrow> 'a any \<Rightarrow> 'f \<Rightarrow> 'b list \<Rightarrow> 'a heap \<times> nat" where
  "AddMetaBranchf sprintf str h n meta format args = AddMetaBranch h n meta (Some (str (sprintf format args)))"

definition SetValuef :: "('f \<Rightarrow> 'b list \<Rightarrow> string) \<Rightarrow> (string \<Rightarrow> 'a) \<Rightarrow> 'a heap \<Rightarrow> nat \<Rightarrow> 'f \<Rightarrow> 'b list \<Rightarrow> 'a heap" where
  "SetValuef sprintf str h n format args = h[n := (h ! n)\<lparr>Value := Some (str (sprintf format args))\<rparr>]"

definition NewWithRootf :: "('f \<Rightarrow> 'b list \<Rightarrow> string) \<Rightarrow> (string \<Rightarrow> 'a) \<Rightarrow> 'a heap \<Rightarrow> 'f \<Rightarrow> 'b list \<Rightarrow> 'a heap \<times> nat" where
  "NewWithRootf sprintf str h format args =
     (let (p, h') = alloc h \<lparr>Root = None, Meta = None, Value = Some (str (sprintf format args)), Nodes = []\<rparr> in (h', p))"

section \<open>Abstract trees\<close>

text \<open>
  The value a heap address denotes: the tree of metadata, values and children
  below it. Paths are lists of child positions; \<open>follow\<close> walks one down the
  heap from an address.
\<close>

datatype 'a tree = Tr (tmeta: "'a any") (tval: "'a any") (tkids: "'a tree list")

inductive repr :: "'a heap \<Rightarrow> nat \<Rightarrow> 'a tree \<Rightarrow> bool" for h :: "'a heap" where
  repr_node: "n < length h \<Longrightarrow> list_all2 (repr h) (Nodes (h ! n)) ts \<Longrightarrow>
    repr h n (Tr (Meta (h ! n)) (Value (h ! n)) ts)"

section \<open>Heap invariants\<close>

text \<open>
  \<open>wf_heap\<close>: what every heap built by the API satisfies. Children lists are
  duplicate-free, a child is allocated after its parent (so the pointer graph
  is acyclic), and the back pointer of a node is either cleared (by
  \<open>Branch\<close>) or names the node that lists it. \<open>linked\<close>: no listed child has
  a cleared back pointer, which holds as long as \<open>Branch\<close> is applied to
  roots only.
\<close>

definition wf_heap :: "'a heap \<Rightarrow> bool" where
  "wf_heap h \<longleftrightarrow>
     (\<forall>p < length h. distinct (Nodes (h ! p)) \<and>
        (\<forall>c \<in> set (Nodes (h ! p)). p < c \<and> c < length h \<and> Root (h ! c) \<in> {None, Some p}) \<and>
        (case Root (h ! p) of None \<Rightarrow> True | Some q \<Rightarrow> q < p \<and> p \<in> set (Nodes (h ! q))))"

definition linked :: "'a heap \<Rightarrow> bool" where
  "linked h \<longleftrightarrow> (\<forall>p < length h. \<forall>c \<in> set (Nodes (h ! p)). Root (h ! c) = Some p)"

text \<open>\<open>owned\<close>: every node is listed by at most one parent, as the spec's
  children are exclusively owned; the API never appends an existing node.\<close>

definition owned :: "'a heap \<Rightarrow> bool" where
  "owned h \<longleftrightarrow>
     (\<forall>p < length h. \<forall>q < length h. p \<noteq> q \<longrightarrow> set (Nodes (h ! p)) \<inter> set (Nodes (h ! q)) = {})"

text \<open>\<open>desc h p q\<close>: \<open>q\<close> is reached from \<open>p\<close> by following one or more
  \<open>Nodes\<close> pointers, i.e. it is a descendant of \<open>p\<close>.\<close>

inductive desc :: "'a heap \<Rightarrow> nat \<Rightarrow> nat \<Rightarrow> bool" for h where
  desc_child: "p < length h \<Longrightarrow> c \<in> set (Nodes (h ! p)) \<Longrightarrow> desc h p c"
| desc_step: "desc h p q \<Longrightarrow> q < length h \<Longrightarrow> c \<in> set (Nodes (h ! q)) \<Longrightarrow> desc h p c"

code_pred desc .

text \<open>The heap after allocating a child of \<open>n\<close> and appending it to \<open>n.Nodes\<close>.\<close>

abbreviation child_heap :: "'a heap \<Rightarrow> nat \<Rightarrow> 'a any \<Rightarrow> 'a any \<Rightarrow> 'a heap" where
  "child_heap h n m a \<equiv> append_child (h @ [\<lparr>Root = Some n, Meta = m, Value = a, Nodes = []\<rparr>]) n (length h)"

section \<open>Example trees\<close>

text \<open>Trees built through the API, used by the witnesses: \<open>.\<close> with a branch
  \<open>A\<close> holding \<open>x\<close>, then a leaf \<open>B\<close>; the same shape with metadata \<open>7\<close>
  on \<open>y\<close> and \<open>B\<close>; and a branch \<open>A\<close> holding a node with metadata \<open>x\<close>
  and value \<open>y\<close>.\<close>

definition ex_tree :: "gval heap" where
  "ex_tree = fst (AddNode (fst (AddNode (fst (AddBranch (fst (New [])) 0 (Some (GStr ''A''))))
     1 (Some (GStr ''x'')))) 0 (Some (GStr ''B'')))"

section \<open>Lemmas\<close>

subsection \<open>Heap updates\<close>

lemma nth_list_update_if: "j < length xs \<Longrightarrow> xs[i := x] ! j = (if i = j then x else xs ! j)"
  by simp

lemma length_append_child [simp]: "length (append_child h n c) = length h"
  by (simp add: append_child_def)

lemma nth_append_child:
  "append_child h n c ! p = (if p = n \<and> n < length h then (h ! n)\<lparr>Nodes := Nodes (h ! n) @ [c]\<rparr> else h ! p)"
  by (cases "p = n") (simp_all add: append_child_def nth_list_update list_update_beyond)

lemma Root_append_child [simp]: "p < length h \<Longrightarrow> Root (append_child h n c ! p) = Root (h ! p)"
  by (simp add: nth_append_child)

lemma Meta_append_child [simp]: "p < length h \<Longrightarrow> Meta (append_child h n c ! p) = Meta (h ! p)"
  by (simp add: nth_append_child)

lemma Value_append_child [simp]: "p < length h \<Longrightarrow> Value (append_child h n c ! p) = Value (h ! p)"
  by (simp add: nth_append_child)

lemma Nodes_append_child:
  "p < length h \<Longrightarrow> Nodes (append_child h n c ! p) = (if p = n then Nodes (h ! n) @ [c] else Nodes (h ! p))"
  by (simp add: nth_append_child)


lemma AddNode_eq: "AddNode h n a = (child_heap h n None a, n)"
  by (simp add: AddNode_def alloc_def)
lemma AddMetaNode_eq: "AddMetaNode h n m a = (child_heap h n m a, n)"
  by (simp add: AddMetaNode_def alloc_def)
lemma AddBranch_eq: "AddBranch h n a = (child_heap h n None a, length h)"
  by (simp add: AddBranch_def alloc_def)
lemma AddMetaBranch_eq: "AddMetaBranch h n m a = (child_heap h n m a, length h)"
  by (simp add: AddMetaBranch_def alloc_def)

lemma child_heap_new: "child_heap h n m a ! length h = \<lparr>Root = Some n, Meta = m, Value = a, Nodes = []\<rparr>"
  if "n < length h" using that by (simp add: nth_append_child)

lemma child_heap_old: "p < length h \<Longrightarrow> child_heap h n m a ! p = append_child h n (length h) ! p"
  by (simp add: nth_append_child nth_append)

lemma Nodes_child_heap:
  "p < length h \<Longrightarrow> Nodes (child_heap h n m a ! p) = (if p = n then Nodes (h ! p) @ [length h] else Nodes (h ! p))"
  by (simp add: child_heap_old Nodes_append_child)

lemma Root_child_heap: "p < length h \<Longrightarrow> Root (child_heap h n m a ! p) = Root (h ! p)"
  by (simp add: child_heap_old)

lemma wf_heapD:
  assumes "wf_heap h" "p < length h"
  shows "distinct (Nodes (h ! p))"
    and "c \<in> set (Nodes (h ! p)) \<Longrightarrow> p < c \<and> c < length h \<and> Root (h ! c) \<in> {None, Some p}"
    and "Root (h ! p) = Some q \<Longrightarrow> q < p \<and> p \<in> set (Nodes (h ! q))"
proof -
  from assms have all: "distinct (Nodes (h ! p)) \<and>
        (\<forall>c \<in> set (Nodes (h ! p)). p < c \<and> c < length h \<and> Root (h ! c) \<in> {None, Some p}) \<and>
        (case Root (h ! p) of None \<Rightarrow> True | Some q \<Rightarrow> q < p \<and> p \<in> set (Nodes (h ! q)))"
    unfolding wf_heap_def by blast
  then show "distinct (Nodes (h ! p))" by blast
  show "c \<in> set (Nodes (h ! p)) \<Longrightarrow> p < c \<and> c < length h \<and> Root (h ! c) \<in> {None, Some p}"
    using all by blast
  show "Root (h ! p) = Some q \<Longrightarrow> q < p \<and> p \<in> set (Nodes (h ! q))"
    using all by simp
qed

lemma wf_heapI:
  assumes "\<And>p. p < length h \<Longrightarrow> distinct (Nodes (h ! p))"
    and "\<And>p c. p < length h \<Longrightarrow> c \<in> set (Nodes (h ! p)) \<Longrightarrow> p < c \<and> c < length h \<and> Root (h ! c) \<in> {None, Some p}"
    and "\<And>p q. p < length h \<Longrightarrow> Root (h ! p) = Some q \<Longrightarrow> q < p \<and> p \<in> set (Nodes (h ! q))"
  shows "wf_heap h"
proof -
  have "case Root (h ! p) of None \<Rightarrow> True | Some q \<Rightarrow> q < p \<and> p \<in> set (Nodes (h ! q))"
    if "p < length h" for p
    using assms(3)[OF that] by (cases "Root (h ! p)") simp_all
  with assms(1,2) show ?thesis unfolding wf_heap_def by blast
qed

text \<open>A child listed in the heap after \<open>AddNode\<close> and friends is the new node,
  listed by the receiver, or a child the node already had.\<close>

lemma child_heap_child:
  assumes wf: "wf_heap h" and p: "p < length h" and c: "c \<in> set (Nodes (child_heap h n m a ! p))"
  shows "(c = length h \<and> p = n) \<or> (c \<noteq> length h \<and> c \<in> set (Nodes (h ! p)))"
proof (cases "c = length h")
  case True
  have "p = n"
  proof (rule ccontr)
    assume "p \<noteq> n"
    with c p True have "length h \<in> set (Nodes (h ! p))" by (simp add: Nodes_child_heap)
    with wf_heapD(2)[OF wf p] show False by blast
  qed
  with True show ?thesis by simp
next
  case False
  with c p show ?thesis by (simp add: Nodes_child_heap split: if_splits)
qed

text \<open>The back pointers after \<open>AddNode\<close> and friends: the new node's
  names the receiver, which lists it; the others are as before.\<close>

lemma child_heap_back:
  assumes wf: "wf_heap h" and n: "n < length h"
    and p: "p < length (child_heap h n m a)" and q: "Root (child_heap h n m a ! p) = Some q"
  shows "q < p \<and> p \<in> set (Nodes (child_heap h n m a ! q))"
proof (cases "p < length h")
  case True
  with q have "Root (h ! p) = Some q" by (simp add: nth_append)
  with wf_heapD(3)[OF wf True] have "q < p \<and> p \<in> set (Nodes (h ! q))" by blast
  with True show ?thesis by (auto simp: Nodes_child_heap)
next
  case False
  with p have "p = length h" by simp
  with q n show ?thesis by (simp add: child_heap_new Nodes_child_heap)
qed

lemma wf_heap_child_heap:
  assumes wf: "wf_heap h" and n: "n < length h"
  shows "wf_heap (child_heap h n m a)"
proof (rule wf_heapI)
  fix p assume p: "p < length (child_heap h n m a)"
  show "distinct (Nodes (child_heap h n m a ! p))"
  proof (cases "p < length h")
    case True
    with wf_heapD(1,2)[OF wf True] show ?thesis by (auto simp: Nodes_child_heap)
  next
    case False
    with p have "p = length h" by simp
    with n show ?thesis by (simp add: child_heap_new)
  qed
next
  fix p c assume p: "p < length (child_heap h n m a)" and c: "c \<in> set (Nodes (child_heap h n m a ! p))"
  show "p < c \<and> c < length (child_heap h n m a) \<and> Root (child_heap h n m a ! c) \<in> {None, Some p}"
  proof (cases "p < length h")
    case True
    from child_heap_child[OF wf True c] show ?thesis
    proof
      assume "c = length h \<and> p = n"
      with n show ?thesis by (simp add: child_heap_new)
    next
      assume "c \<noteq> length h \<and> c \<in> set (Nodes (h ! p))"
      with wf_heapD(2)[OF wf True] have "p < c \<and> c < length h \<and> Root (h ! c) \<in> {None, Some p}"
        by blast
      then show ?thesis by (simp add: nth_append)
    qed
  next
    case False
    with p have "p = length h" by simp
    with c n show ?thesis by (simp add: child_heap_new)
  qed
next
  fix p q assume "p < length (child_heap h n m a)" and "Root (child_heap h n m a ! p) = Some q"
  from child_heap_back[OF wf n this] show "q < p \<and> p \<in> set (Nodes (child_heap h n m a ! q))" .
qed

lemma wf_heap_same_links:
  assumes wf: "wf_heap h" and len: "length h' = length h"
    and nodes: "\<And>p. p < length h \<Longrightarrow> Nodes (h' ! p) = Nodes (h ! p)"
    and root: "\<And>p. p < length h \<Longrightarrow> Root (h' ! p) = Root (h ! p) \<or> Root (h' ! p) = None"
  shows "wf_heap h'"
proof (rule wf_heapI)
  fix p assume "p < length h'"
  with len have p: "p < length h" by simp
  with wf_heapD(1)[OF wf p] nodes show "distinct (Nodes (h' ! p))" by simp
  fix c assume "c \<in> set (Nodes (h' ! p))"
  with nodes p have "c \<in> set (Nodes (h ! p))" by simp
  with wf_heapD(2)[OF wf p] have "p < c \<and> c < length h \<and> Root (h ! c) \<in> {None, Some p}" by blast
  with root[of c] len show "p < c \<and> c < length h' \<and> Root (h' ! c) \<in> {None, Some p}" by auto
next
  fix p q assume "p < length h'" and q: "Root (h' ! p) = Some q"
  with len have p: "p < length h" by simp
  with q root[of p] have "Root (h ! p) = Some q" by auto
  with wf_heapD(3)[OF wf p] have "q < p \<and> p \<in> set (Nodes (h ! q))" by blast
  with nodes[of q] p show "q < p \<and> p \<in> set (Nodes (h' ! q))" by simp
qed

lemma linked_same_links:
  assumes "linked h" "length h' = length h"
    and "\<And>p. p < length h \<Longrightarrow> Nodes (h' ! p) = Nodes (h ! p)"
    and "\<And>p. p < length h \<Longrightarrow> Root (h' ! p) = Root (h ! p)"
    and "wf_heap h"
  shows "linked h'"
  using assms unfolding linked_def by (metis wf_heapD(2))

lemma wf_heap_snoc_root:
  assumes wf: "wf_heap h"
  shows "wf_heap (h @ [\<lparr>Root = None, Meta = m, Value = v, Nodes = []\<rparr>])"
    (is "wf_heap ?h")
proof (rule wf_heapI)
  fix p assume p: "p < length ?h"
  show "distinct (Nodes (?h ! p))"
    using p wf_heapD(1)[OF wf] by (cases "p < length h") (simp_all add: nth_append)
next
  fix p c assume p: "p < length ?h" and c: "c \<in> set (Nodes (?h ! p))"
  show "p < c \<and> c < length ?h \<and> Root (?h ! c) \<in> {None, Some p}"
  proof (cases "p < length h")
    case True
    with c have "c \<in> set (Nodes (h ! p))" by (simp add: nth_append)
    with wf_heapD(2)[OF wf True] have "p < c \<and> c < length h \<and> Root (h ! c) \<in> {None, Some p}"
      by blast
    then show ?thesis by (simp add: nth_append)
  qed (use p c in \<open>simp add: nth_append\<close>)
next
  fix p q assume p: "p < length ?h" and q: "Root (?h ! p) = Some q"
  show "q < p \<and> p \<in> set (Nodes (?h ! q))"
  proof (cases "p < length h")
    case True
    with q have "Root (h ! p) = Some q" by (simp add: nth_append)
    with wf_heapD(3)[OF wf True] True show ?thesis by (simp add: nth_append)
  qed (use p q in \<open>simp add: nth_append\<close>)
qed

lemma wf_heap_NewWithRoot: "wf_heap h \<Longrightarrow> wf_heap (fst (NewWithRoot h v))"
  by (simp add: NewWithRoot_def alloc_def wf_heap_snoc_root)

lemma wf_heap_Branch: assumes "wf_heap h" shows "wf_heap (fst (Branch h n))"
  unfolding Branch_def fst_conv
  by (rule wf_heap_same_links[OF assms]) (auto simp: nth_list_update_if)

lemma wf_heap_SetValue: assumes "wf_heap h" shows "wf_heap (SetValue h n v)"
  unfolding SetValue_def
  by (rule wf_heap_same_links[OF assms]) (auto simp: nth_list_update_if)

lemma wf_heap_SetMetaValue: assumes "wf_heap h" shows "wf_heap (SetMetaValue h n v)"
  unfolding SetMetaValue_def
  by (rule wf_heap_same_links[OF assms]) (auto simp: nth_list_update_if)

lemma linked_child_heap:
  assumes wf: "wf_heap h" and lk: "linked h" and n: "n < length h"
  shows "linked (child_heap h n m a)"
  unfolding linked_def
proof (intro allI impI ballI)
  fix p c assume p: "p < length (child_heap h n m a)" and c: "c \<in> set (Nodes (child_heap h n m a ! p))"
  show "Root (child_heap h n m a ! c) = Some p"
  proof (cases "p < length h")
    case False
    with p have "p = length h" by simp
    with c n show ?thesis by (simp add: child_heap_new)
  next
    case True
    from child_heap_child[OF wf True c] show ?thesis
    proof
      assume "c = length h \<and> p = n"
      with n show ?thesis by (simp add: child_heap_new)
    next
      assume cp: "c \<noteq> length h \<and> c \<in> set (Nodes (h ! p))"
      with wf_heapD(2)[OF wf True] have "c < length h" by blast
      with lk True cp show ?thesis by (simp add: linked_def nth_append)
    qed
  qed
qed

lemma linked_snoc_root: "linked h \<Longrightarrow> wf_heap h \<Longrightarrow> linked (h @ [\<lparr>Root = None, Meta = m, Value = v, Nodes = []\<rparr>])"
  unfolding linked_def
proof (intro allI impI ballI)
  fix p c assume lk: "\<forall>p<length h. \<forall>c\<in>set (Nodes (h ! p)). Root (h ! c) = Some p" and wf: "wf_heap h"
    and p: "p < length (h @ [\<lparr>Root = None, Meta = m, Value = v, Nodes = []\<rparr>])"
    and c: "c \<in> set (Nodes ((h @ [\<lparr>Root = None, Meta = m, Value = v, Nodes = []\<rparr>]) ! p))"
  show "Root ((h @ [\<lparr>Root = None, Meta = m, Value = v, Nodes = []\<rparr>]) ! c) = Some p"
  proof (cases "p < length h")
    case True
    with c have cp: "c \<in> set (Nodes (h ! p))" by (simp add: nth_append)
    with wf_heapD(2)[OF wf True] have "c < length h" by blast
    with lk True cp show ?thesis by (simp add: nth_append)
  next
    case False
    with p c show ?thesis by (simp add: nth_append)
  qed
qed

text \<open>Branch() on a node that has no parent changes nothing.\<close>

lemma Branch_root:
  assumes "Root (h ! n) = None"
  shows "fst (Branch h n) = h"
proof -
  have "(h ! n)\<lparr>Root := None\<rparr> = h ! n" using assms by (cases "h ! n") simp
  then show ?thesis by (simp add: Branch_def)
qed

text \<open>Every API step keeps each node's parent unique.\<close>

lemma ownedD:
  "owned h \<Longrightarrow> p < length h \<Longrightarrow> q < length h \<Longrightarrow> c \<in> set (Nodes (h ! p)) \<Longrightarrow> c \<in> set (Nodes (h ! q)) \<Longrightarrow> p = q"
  unfolding owned_def by blast

lemma ownedI:
  "(\<And>p q c. p < length h \<Longrightarrow> q < length h \<Longrightarrow> c \<in> set (Nodes (h ! p)) \<Longrightarrow> c \<in> set (Nodes (h ! q)) \<Longrightarrow> p = q)
   \<Longrightarrow> owned h"
  unfolding owned_def by blast

lemma owned_child_heap:
  assumes wf: "wf_heap h" and ow: "owned h" and n: "n < length h"
  shows "owned (child_heap h n m a)"
proof (rule ownedI)
  fix p q c
  assume p: "p < length (child_heap h n m a)" and q: "q < length (child_heap h n m a)"
    and cp: "c \<in> set (Nodes (child_heap h n m a ! p))" and cq: "c \<in> set (Nodes (child_heap h n m a ! q))"
  have old: "x < length h" if "x < length (child_heap h n m a)" "c \<in> set (Nodes (child_heap h n m a ! x))" for x
  proof (rule ccontr)
    assume "\<not> x < length h"
    with that have "x = length h" by simp
    with that n show False by (simp add: child_heap_new)
  qed
  from old[OF p cp] old[OF q cq] have pl: "p < length h" and ql: "q < length h" .
  from child_heap_child[OF wf pl cp] child_heap_child[OF wf ql cq] show "p = q"
    using ownedD[OF ow pl ql] by blast
qed

lemma owned_same_links:
  assumes "owned h" "length h' = length h" "\<And>p. p < length h \<Longrightarrow> Nodes (h' ! p) = Nodes (h ! p)"
  shows "owned h'"
  using assms unfolding owned_def by metis

lemma owned_snoc_root:
  assumes "owned h" shows "owned (h @ [\<lparr>Root = None, Meta = m, Value = v, Nodes = []\<rparr>])"
  using assms unfolding owned_def by (auto simp: nth_append less_Suc_eq)

text \<open>When every listed child points back to its parent, the parent is unique.\<close>

lemma linked_owned:
  assumes "linked h" shows "owned h"
proof (rule ownedI)
  fix p q c assume "p < length h" "q < length h" "c \<in> set (Nodes (h ! p))" "c \<in> set (Nodes (h ! q))"
  with assms have "Root (h ! c) = Some p" "Root (h ! c) = Some q" unfolding linked_def by blast+
  then show "p = q" by simp
qed

subsection \<open>The abstraction\<close>

inductive_simps repr_Tr: "repr h n (Tr m v ts)"

lemma list_all2_exists: "\<forall>x \<in> set xs. \<exists>y. P x y \<Longrightarrow> \<exists>ys. list_all2 P xs ys"
proof (induction xs)
  case Nil
  then show ?case by simp
next
  case (Cons x xs)
  then obtain y ys where "P x y" "list_all2 P xs ys" by auto
  then show ?case by (intro exI[of _ "y # ys"]) simp
qed

inductive_cases repr_elim: "repr h n t"

lemma repr_D:
  assumes "repr h n t"
  shows "n < length h" "tmeta t = Meta (h ! n)" "tval t = Value (h ! n)"
    "list_all2 (repr h) (Nodes (h ! n)) (tkids t)"
  using assms by (auto elim: repr_elim)

lemma repr_exists:
  assumes wf: "wf_heap h" and p: "p < length h"
  shows "\<exists>t. repr h p t"
  using p
proof (induction "length h - p" arbitrary: p rule: less_induct)
  case less
  have "\<forall>c \<in> set (Nodes (h ! p)). \<exists>t. repr h c t"
  proof
    fix c assume c: "c \<in> set (Nodes (h ! p))"
    with wf_heapD(2)[OF wf less.prems] have "p < c" "c < length h" by auto
    then show "\<exists>t. repr h c t" using less.hyps by simp
  qed
  then obtain ts where "list_all2 (repr h) (Nodes (h ! p)) ts"
    using list_all2_exists by blast
  with less.prems show ?case by (blast intro: repr.intros)
qed

lemma list_all2_unique:
  "list_all2 (\<lambda>x y. P x y \<and> (\<forall>z. P x z \<longrightarrow> y = z)) xs ys \<Longrightarrow> list_all2 P xs zs \<Longrightarrow> ys = zs"
  by (induction xs ys arbitrary: zs rule: list_all2_induct) (auto simp: list_all2_Cons1)

lemma repr_unique: "repr h n t \<Longrightarrow> repr h n t' \<Longrightarrow> t = t'"
proof (induction arbitrary: t' rule: repr.induct)
  case (repr_node n ts)
  from repr_node.prems obtain ts' where t': "t' = Tr (Meta (h ! n)) (Value (h ! n)) ts'"
    and ts': "list_all2 (repr h) (Nodes (h ! n)) ts'"
    by (auto elim: repr_elim)
  from repr_node.IH ts' have "ts = ts'" by (rule list_all2_unique)
  with t' show ?case by simp
qed

text \<open>The tree a node denotes depends only on the children, metadata and values of
  the heap, not on the back pointers.\<close>

lemma repr_same_labels:
  assumes "repr h n t" and "length h' = length h"
    and "\<And>p. p < length h \<Longrightarrow> Nodes (h' ! p) = Nodes (h ! p) \<and> Meta (h' ! p) = Meta (h ! p) \<and> Value (h' ! p) = Value (h ! p)"
  shows "repr h' n t"
  using assms(1)
proof (induction rule: repr.induct)
  case (repr_node n ts)
  have l: "Nodes (h' ! n) = Nodes (h ! n)" "Meta (h' ! n) = Meta (h ! n)" "Value (h' ! n) = Value (h ! n)"
    using assms(3) repr_node.hyps(1) by auto
  have "list_all2 (repr h') (Nodes (h' ! n)) ts"
    using repr_node.IH l(1) by (auto elim: list_all2_mono)
  then have "repr h' n (Tr (Meta (h' ! n)) (Value (h' ! n)) ts)"
    using repr_node.hyps(1) assms(2) by (auto intro: repr.repr_node)
  with l show ?case by simp
qed

lemma repr_Branch: "repr h n t \<Longrightarrow> repr (fst (Branch h n')) n t"
  by (erule repr_same_labels) (auto simp: Branch_def nth_list_update_if)

subsection \<open>Example trees\<close>

lemma ex_tree_eval: "ex_tree = [\<lparr>Root = None, Meta = None, Value = Some (GStr ''.''), Nodes = [1, 3]\<rparr>,
   \<lparr>Root = Some 0, Meta = None, Value = Some (GStr ''A''), Nodes = [2]\<rparr>,
   \<lparr>Root = Some 1, Meta = None, Value = Some (GStr ''x''), Nodes = []\<rparr>,
   \<lparr>Root = Some 0, Meta = None, Value = Some (GStr ''B''), Nodes = []\<rparr>]"
  by (simp add: ex_tree_def New_def NewWithRoot_def AddNode_def AddBranch_def alloc_def append_child_def)

lemma wf_ex_tree: "wf_heap ex_tree"
  by (simp add: ex_tree_eval wf_heap_def less_Suc_eq)

lemma desc_trans: "desc h q r \<Longrightarrow> desc h p q \<Longrightarrow> desc h p r"
  by (induction rule: desc.induct) (auto intro: desc.intros)

text \<open>On a well-formed heap a descendant has a larger address: no node is its
  own descendant.\<close>

lemma desc_wf:
  assumes wf: "wf_heap h"
  shows "desc h p q \<Longrightarrow> p < q \<and> q < length h"
proof (induction rule: desc.induct)
  case (desc_child p c)
  from wf_heapD(2)[OF wf desc_child.hyps] show ?case by blast
next
  case (desc_step p q c)
  from wf_heapD(2)[OF wf desc_step.hyps(2,3)] desc_step.IH show ?case by simp
qed

text \<open>The descendants of a node through its first or its last edge.\<close>

lemma desc_last:
  "desc h a x \<Longrightarrow> \<exists>q < length h. x \<in> set (Nodes (h ! q)) \<and> (q = a \<or> desc h a q)"
  by (induction rule: desc.induct) auto

lemma desc_first:
  "desc h p q \<longleftrightarrow> p < length h \<and> (\<exists>c \<in> set (Nodes (h ! p)). c = q \<or> desc h c q)"
proof
  show "desc h p q \<Longrightarrow> p < length h \<and> (\<exists>c \<in> set (Nodes (h ! p)). c = q \<or> desc h c q)"
    by (induction rule: desc.induct) (auto intro: desc.intros)
next
  assume "p < length h \<and> (\<exists>c \<in> set (Nodes (h ! p)). c = q \<or> desc h c q)"
  then show "desc h p q" by (auto intro: desc_child desc_trans)
qed

text \<open>With one parent per node, the ancestors of a node are its parent's.\<close>

lemma desc_parent:
  assumes wf: "wf_heap h" and ow: "owned h" and p: "p < length h" and c: "c \<in> set (Nodes (h ! p))"
    and d: "desc h a c"
  shows "a = p \<or> desc h a p"
proof -
  from desc_last[OF d] obtain q where q: "q < length h" "c \<in> set (Nodes (h ! q))" "q = a \<or> desc h a q"
    by blast
  from ownedD[OF ow q(1) p q(2) c] q(3) show ?thesis by auto
qed

lemma sibling_not_desc:
  assumes wf: "wf_heap h" and ow: "owned h" and p: "p < length h"
    and c: "c \<in> set (Nodes (h ! p))" and c': "c' \<in> set (Nodes (h ! p))"
  shows "\<not> desc h c' c"
proof
  assume "desc h c' c"
  from desc_parent[OF wf ow p c this] have "c' = p \<or> desc h c' p" .
  with wf_heapD(2)[OF wf p c'] desc_wf[OF wf, of c' p] show False by auto
qed

text \<open>The subtrees of two siblings share no node.\<close>

lemma siblings_disjoint:
  assumes wf: "wf_heap h" and ow: "owned h" and p: "p < length h" and c': "c' \<in> set (Nodes (h ! p))"
  shows "desc h c x \<Longrightarrow> c \<in> set (Nodes (h ! p)) \<Longrightarrow> c \<noteq> c' \<Longrightarrow> \<not> desc h c' x"
proof (induction rule: desc.induct)
  case (desc_child c y)
  show ?case
  proof
    assume "desc h c' y"
    from desc_parent[OF wf ow desc_child.hyps this] desc_child.prems sibling_not_desc[OF wf ow p desc_child.prems(1) c']
    show False by blast
  qed
next
  case (desc_step c q y)
  show ?case
  proof
    assume "desc h c' y"
    from desc_parent[OF wf ow desc_step.hyps(2,3) this] desc_step.IH[OF desc_step.prems]
    have "c' = q" by blast
    with desc_step.hyps(1) sibling_not_desc[OF wf ow p c' desc_step.prems(1)] show False by blast
  qed
qed

subsection \<open>Constructors and mutators\<close>

text \<open>A heap that agrees with \<open>h\<close> on the children, metadata and values of every
  node after \<open>n\<close> gives the nodes after \<open>n\<close> the same trees: on a well-formed heap
  their subtrees do not reach \<open>n\<close> (after the frame rule of pointer programs).\<close>

lemma repr_update_below:
  assumes wf: "wf_heap h" and t: "repr h q t" and len: "length h \<le> length h'"
    and same: "\<And>p. n < p \<Longrightarrow> p < length h \<Longrightarrow>
      Nodes (h' ! p) = Nodes (h ! p) \<and> Meta (h' ! p) = Meta (h ! p) \<and> Value (h' ! p) = Value (h ! p)"
  shows "n < q \<longrightarrow> repr h' q t"
  using t
proof (induction rule: repr.induct)
  case (repr_node p ts)
  show ?case
  proof
    assume np: "n < p"
    have kids: "list_all2 (repr h') (Nodes (h ! p)) ts"
      using repr_node.IH
    proof (rule list.rel_mono_strong)
      fix c u assume c: "c \<in> set (Nodes (h ! p))" and "u \<in> set ts"
        and cu: "repr h c u \<and> (n < c \<longrightarrow> repr h' c u)"
      from wf_heapD(2)[OF wf repr_node.hyps(1) c] np have "n < c" by auto
      with cu show "repr h' c u" by simp
    qed
    have p: "p < length h'" using repr_node.hyps(1) len by simp
    from repr.repr_node[OF p] kids same[OF np repr_node.hyps(1)]
    show "repr h' p (Tr (Meta (h ! p)) (Value (h ! p)) ts)" by simp
  qed
qed

lemma repr_child_heap_below:
  assumes wf: "wf_heap h" and t: "repr h q t"
  shows "n < q \<longrightarrow> repr (child_heap h n m a) q t"
  by (rule repr_update_below[OF wf t]) (simp_all add: Nodes_child_heap nth_append)

text \<open>The abstract effect of the \<open>Add...\<close> methods on the receiver's tree: one more
  leaf, last among its children, with the given metadata and value.\<close>

lemma repr_child_heap:
  assumes wf: "wf_heap h" and t: "repr h n (Tr mt v ks)"
  shows "repr (child_heap h n m a) n (Tr mt v (ks @ [Tr m a []]))"
proof -
  have n: "n < length h" and mt: "mt = Meta (h ! n)" and v: "v = Value (h ! n)"
    and ks: "list_all2 (repr h) (Nodes (h ! n)) ks" using repr_D[OF t] by simp_all
  have old: "list_all2 (repr (child_heap h n m a)) (Nodes (h ! n)) ks"
    using ks
  proof (rule list.rel_mono_strong)
    fix c u assume c: "c \<in> set (Nodes (h ! n))" and "u \<in> set ks" and "repr h c u"
    with wf_heapD(2)[OF wf n c] repr_child_heap_below[OF wf] show "repr (child_heap h n m a) c u" by blast
  qed
  have new: "repr (child_heap h n m a) (length h) (Tr m a [])"
    using repr.repr_node[of "length h" "child_heap h n m a" "[]"] n by (simp add: child_heap_new)
  have "list_all2 (repr (child_heap h n m a)) (Nodes (child_heap h n m a ! n)) (ks @ [Tr m a []])"
    using old new n by (simp add: Nodes_child_heap list_all2_appendI)
  from repr.repr_node[OF _ this] n mt v show ?thesis by (simp add: nth_append)
qed

text \<open>The abstract effect of \<open>SetValue\<close> and \<open>SetMetaValue\<close> on the receiver's tree.\<close>

lemma repr_set_label:
  assumes wf: "wf_heap h" and t: "repr h n (Tr mt v ks)"
    and h': "h' = h[n := (h ! n)\<lparr>Meta := mt', Value := v'\<rparr>]"
  shows "repr h' n (Tr mt' v' ks)"
proof -
  have n: "n < length h" and ks: "list_all2 (repr h) (Nodes (h ! n)) ks" using repr_D[OF t] by simp_all
  have same: "Nodes (h' ! p) = Nodes (h ! p) \<and> Meta (h' ! p) = Meta (h ! p) \<and> Value (h' ! p) = Value (h ! p)"
    if "n < p" for p using that by (simp add: h')
  have "list_all2 (repr h') (Nodes (h ! n)) ks"
    using ks
  proof (rule list.rel_mono_strong)
    fix c u assume c: "c \<in> set (Nodes (h ! n))" and "u \<in> set ks" and "repr h c u"
    with wf_heapD(2)[OF wf n c] repr_update_below[OF wf _ _ same] h' show "repr h' c u" by auto
  qed
  with repr.repr_node[of n h'] n h' show ?thesis by simp
qed

lemma FindLastNode_last:
  "FindLastNode h n = (if Nodes (h ! n) = [] then None else Some (last (Nodes (h ! n))))"
  by (simp add: FindLastNode_def Let_def last_conv_nth)

text \<open>C27: AddBranch allocates a new node, appends it as the last child of the receiver and returns it; the new node holds the value, points back to the receiver and has no children.\<close>

theorem AddBranch_last_child:
  assumes "n < length h"
  shows "snd (AddBranch h n a) = length h \<and>
    FindLastNode (fst (AddBranch h n a)) n = Some (snd (AddBranch h n a)) \<and>
    Value (fst (AddBranch h n a) ! snd (AddBranch h n a)) = a \<and>
    Root (fst (AddBranch h n a) ! snd (AddBranch h n a)) = Some n \<and>
    Nodes (fst (AddBranch h n a) ! snd (AddBranch h n a)) = []"
  using assms by (simp add: AddBranch_eq FindLastNode_last Nodes_child_heap child_heap_new)

theorem AddBranch_last_child_witness:
  "(0::nat) < length (fst (New [])) \<and> FindLastNode (fst (AddBranch (fst (New [])) 0 (Some (GStr ''A'')))) 0 = Some 1"
proof -
  have n: "(0::nat) < length (fst (New []))" by (simp add: New_def NewWithRoot_def alloc_def)
  show ?thesis using n AddBranch_last_child[OF n, of "Some (GStr ''A'')"]
    by (simp add: New_def NewWithRoot_def alloc_def)
qed


text \<open>C23: AddNode, AddMetaNode, AddBranch and AddMetaBranch each give the receiver's tree one more child, last among its children, that is a leaf with the given metadata (none for AddNode and AddBranch) and value; AddNode and AddMetaNode return the receiver, AddBranch and AddMetaBranch the new node, on every well-formed heap.\<close>

theorem Add_refines_tree:
  assumes wf: "wf_heap h" and t: "repr h n (Tr mt v ks)"
  shows "repr (fst (AddNode h n a)) n (Tr mt v (ks @ [Tr None a []])) \<and> snd (AddNode h n a) = n \<and>
    repr (fst (AddMetaNode h n m a)) n (Tr mt v (ks @ [Tr m a []])) \<and> snd (AddMetaNode h n m a) = n \<and>
    repr (fst (AddBranch h n a)) n (Tr mt v (ks @ [Tr None a []])) \<and>
    repr (fst (AddBranch h n a)) (snd (AddBranch h n a)) (Tr None a []) \<and>
    repr (fst (AddMetaBranch h n m a)) n (Tr mt v (ks @ [Tr m a []])) \<and>
    repr (fst (AddMetaBranch h n m a)) (snd (AddMetaBranch h n m a)) (Tr m a [])"
proof -
  have n: "n < length h" using repr_D(1)[OF t] .
  have leaf: "repr (child_heap h n m' a) (length h) (Tr m' a [])" for m'
    using repr.repr_node[of "length h" "child_heap h n m' a" "[]"] n by (simp add: child_heap_new)
  show ?thesis
    using repr_child_heap[OF wf t] leaf
    by (simp add: AddNode_eq AddMetaNode_eq AddBranch_eq AddMetaBranch_eq)
qed

theorem Add_refines_tree_witness:
  "wf_heap ex_tree \<and> repr ex_tree 1 (Tr None (Some (GStr ''A'')) [Tr None (Some (GStr ''x'')) []]) \<and>
   repr (fst (AddNode ex_tree 1 (Some (GStr ''y'')))) 1
     (Tr None (Some (GStr ''A'')) [Tr None (Some (GStr ''x'')) [], Tr None (Some (GStr ''y'')) []])"
proof -
  have r: "repr ex_tree 1 (Tr None (Some (GStr ''A'')) [Tr None (Some (GStr ''x'')) []])"
    by (simp add: ex_tree_eval repr_Tr)
  from Add_refines_tree[OF wf_ex_tree r, of "Some (GStr ''y'')"] wf_ex_tree r show ?thesis by simp
qed


text \<open>C26: SetValue(v) and SetMetaValue(m) on a node change, in the tree the node denotes, exactly its own value, respectively its metadata, and leave its children's trees as they were, on every well-formed heap.\<close>

theorem Set_refines_tree:
  assumes wf: "wf_heap h" and t: "repr h n (Tr mt v ks)"
  shows "repr (SetValue h n v') n (Tr mt v' ks) \<and> repr (SetMetaValue h n m') n (Tr m' v ks)"
proof -
  have n: "n < length h" and mt: "mt = Meta (h ! n)" and v: "v = Value (h ! n)" using repr_D[OF t] by simp_all
  have "SetValue h n v' = h[n := (h ! n)\<lparr>Meta := mt, Value := v'\<rparr>]"
    "SetMetaValue h n m' = h[n := (h ! n)\<lparr>Meta := m', Value := v\<rparr>]"
    using mt v by (simp_all add: SetValue_def SetMetaValue_def)
  with repr_set_label[OF wf t] show ?thesis by simp
qed

theorem Set_refines_tree_witness:
  "wf_heap ex_tree \<and> repr ex_tree 1 (Tr None (Some (GStr ''A'')) [Tr None (Some (GStr ''x'')) []]) \<and>
   repr (SetValue ex_tree 1 (Some (GStr ''B''))) 1 (Tr None (Some (GStr ''B'')) [Tr None (Some (GStr ''x'')) []])"
proof -
  have r: "repr ex_tree 1 (Tr None (Some (GStr ''A'')) [Tr None (Some (GStr ''x'')) []])"
    by (simp add: ex_tree_eval repr_Tr)
  from Set_refines_tree[OF wf_ex_tree r, of "Some (GStr ''B'')"] wf_ex_tree r show ?thesis by simp
qed

end
