(* ===== verification/Render.thy ===== *)
theory Render
  imports Node
begin

text \<open>
  The renderer of \<open>src/treeprint.go\<close>: \<open>Writer\<close> and the functions it calls
  (\<open>printNodes\<close>, \<open>printValues\<close>, \<open>isEnded\<close>, \<open>renderValue\<close>, \<open>padding\<close>,
  \<open>isLast\<close>), and \<open>Bytes\<close> and \<open>String\<close> on top of it. The package-level
  variables \<open>EdgeTypeLink\<close>, \<open>EdgeTypeMid\<close>, \<open>EdgeTypeEnd\<close> and
  \<open>IndentSize\<close> are the fields of a configuration record passed to every
  function, together with the \<open>%v\<close> formatting of the payload type. Output
  goes to the sink of theory \<open>Prelude\<close>: the bytes written and the panic that
  stopped the writer, if any. \<open>printNodes\<close> walks the pointer graph and is a
  \<^theory_text>\<open>partial_function (option)\<close>; the loops of \<open>printValues\<close> and \<open>padding\<close>
  are functions with a measure.

  The theory relates the renderer to a specification: \<open>spec_nodes\<close>,
  \<open>spec_render\<close> and \<open>spec_subtree\<close> render an abstract \<open>tree\<close>, and the chain
  lemmas (\<open>padding_loop_up\<close>, \<open>printValues_chain\<close>, \<open>printNodes_chain\<close>)
  show that \<open>Writer\<close> produces them from a root, below which the heap is
  \<open>linked_from\<close> (also after \<open>Branch()\<close>), and from a node with a parent
  when every value is on one line (\<open>single_line\<close>); when one is not, the
  walk of \<open>padding\<close> climbs past that node and panics
  (\<open>String_subtree_multiline_panics\<close>). \<open>utf8_width\<close> bounds the width of the padding, and the
  lemmas on a negative \<open>IndentSize\<close> trace the panic of \<open>strings.Repeat\<close>
  through \<open>padding\<close>, \<open>renderValue\<close> and \<open>printValues\<close>. The only nil
  pointer the renderer follows is the parent in \<open>isLast\<close>, which the loop
  guard of \<open>padding\<close> keeps from being nil (\<open>String_no_nil_dereference\<close>).
\<close>

section \<open>Configuration\<close>

record 'a cfg =
  EdgeTypeLink :: string
  EdgeTypeMid :: string
  EdgeTypeEnd :: string
  IndentSize :: int
  fmtv :: "'a \<Rightarrow> string"

text \<open>The package defaults: the box-drawing characters U+2502, U+251C U+2500 and
  U+2514 U+2500 in UTF-8, and an indent of 3.\<close>

definition default_cfg :: "('a \<Rightarrow> string) \<Rightarrow> 'a cfg" where
  "default_cfg f =
     \<lparr>EdgeTypeLink = [CHR 0xE2, CHR 0x94, CHR 0x82],
      EdgeTypeMid = [CHR 0xE2, CHR 0x94, CHR 0x9C, CHR 0xE2, CHR 0x94, CHR 0x80],
      EdgeTypeEnd = [CHR 0xE2, CHR 0x94, CHR 0x94, CHR 0xE2, CHR 0x94, CHR 0x80],
      IndentSize = 3, fmtv = f\<rparr>"

section \<open>Helpers of the renderer\<close>

text \<open>\<open>isEnded(levelsEnded, level)\<close>: a linear search.\<close>

fun isEnded :: "int list \<Rightarrow> int \<Rightarrow> bool" where
  "isEnded [] level = False"
| "isEnded (l # ls) level = (if l = level then True else isEnded ls level)"

text \<open>\<open>isLast(n)\<close>: \<open>n == n.Root.FindLastNode()\<close>, a pointer comparison; with a
  nil \<open>Root\<close> the call dereferences nil.\<close>

definition isLast :: "'a heap \<Rightarrow> nat \<Rightarrow> error + bool" where
  "isLast h n = (case Root (h ! n) of None \<Rightarrow> Inl NilDereference | Some r \<Rightarrow> Inr (FindLastNode h r = Some n))"

text \<open>
  The loop of \<open>padding\<close>: while the node has a parent, store the segment for
  the node (blank when it is the last child, a vertical link otherwise) at index
  \<open>level\<close> of \<open>links\<close>, then go up one level. The segment is computed before
  the store, whose index is checked against the slice.
\<close>

function padding_loop :: "'a cfg \<Rightarrow> 'a heap \<Rightarrow> int \<Rightarrow> nat \<Rightarrow> string list \<Rightarrow> error + string list" where
  "padding_loop c h level node links =
     (case Root (h ! node) of
        None \<Rightarrow> Inr links
      | Some parent \<Rightarrow>
          (case isLast h node of
             Inl e \<Rightarrow> Inl e
           | Inr is_last \<Rightarrow>
               (case (if is_last then go_Repeat '' '' (IndentSize c + 1)
                      else map_sum id (\<lambda>sp. EdgeTypeLink c @ sp) (go_Repeat '' '' (IndentSize c))) of
                  Inl e \<Rightarrow> Inl e
                | Inr seg \<Rightarrow>
                    if level < 0 \<or> int (length links) \<le> level then Inl IndexOutOfRange
                    else padding_loop c h (level - 1) parent (links[nat level := seg]))))"
  by pat_completeness auto
termination
  by (relation "measure (\<lambda>(c, h, level, node, links). nat (level + 1))") auto

declare padding_loop.simps [simp del]

text \<open>\<open>padding(level, node)\<close>: \<open>make([]string, level+1)\<close>, the loop, \<open>strings.Join(links, "")\<close>.\<close>

definition padding :: "'a cfg \<Rightarrow> 'a heap \<Rightarrow> int \<Rightarrow> nat \<Rightarrow> error + string" where
  "padding c h level node =
     (if level + 1 < 0 then Inl MakeSliceLen
      else (case padding_loop c h level node (replicate (nat (level + 1)) []) of
              Inl e \<Rightarrow> Inl e
            | Inr links \<Rightarrow> Inr (concat links)))"

text \<open>\<open>renderValue(level, node)\<close>: a one-line value is returned as it is; otherwise
  every line after the first is prefixed with the padding.\<close>

definition renderValue :: "'a cfg \<Rightarrow> 'a heap \<Rightarrow> int \<Rightarrow> nat \<Rightarrow> error + string" where
  "renderValue c h level node =
     (let lines = go_Split NL (fmt_any (fmtv c) (Value (h ! node))) in
      if length lines < 2 then Inr (fmt_any (fmtv c) (Value (h ! node)))
      else (case padding c h level node of
              Inl e \<Rightarrow> Inl e
            | Inr pad \<Rightarrow> Inr (go_Join (hd lines # map (\<lambda>l. pad @ l) (tl lines)) [NL])))"

text \<open>The loop \<open>for i := 0; i < level; i++\<close> of \<open>printValues\<close>.\<close>

function prefix_loop :: "'a cfg \<Rightarrow> int list \<Rightarrow> int \<Rightarrow> int \<Rightarrow> wout" where
  "prefix_loop c ended i level =
     (if i < level then
        wseq (if isEnded ended i then wbind (go_Repeat '' '' (IndentSize c + 1)) emit
              else wbind (go_Repeat '' '' (IndentSize c)) (\<lambda>sp. emit (EdgeTypeLink c @ sp)))
             (prefix_loop c ended (i + 1) level)
      else emit [])"
  by pat_completeness auto
termination
  by (relation "measure (\<lambda>(c, ended, i, level). nat (level - i))") auto

declare prefix_loop.simps [simp del]

definition printValues :: "'a cfg \<Rightarrow> 'a heap \<Rightarrow> int \<Rightarrow> int list \<Rightarrow> string \<Rightarrow> nat \<Rightarrow> wout" where
  "printValues c h level ended edge node =
     wseq (prefix_loop c ended 0 level)
       (wbind (renderValue c h level node)
          (\<lambda>val. case Meta (h ! node) of
                    Some meta \<Rightarrow> emit (edge @ '' ['' @ fmtv c meta @ '']  '' @ val @ [NL])
                  | None \<Rightarrow> emit (edge @ '' '' @ val @ [NL])))"

text \<open>
  \<open>printNodes(level, levelsEnded, nodes)\<close>: the range loop as recursion over the
  rest of the slice (the last element is the one with no rest); the last child
  appends its level to \<open>levelsEnded\<close> before its line is printed and its
  children are visited.
\<close>

partial_function (option) printNodes ::
  "'a cfg \<Rightarrow> 'a heap \<Rightarrow> int \<Rightarrow> int list \<Rightarrow> nat list \<Rightarrow> wout option" where
  "printNodes c h level ended ns =
     (case ns of
        [] \<Rightarrow> Some (emit [])
      | node # rest \<Rightarrow>
          (let ended' = (if rest = [] then ended @ [level] else ended);
               edge = (if rest = [] then EdgeTypeEnd c else EdgeTypeMid c);
               r1 = printValues c h level ended' edge node
           in if fst r1 \<noteq> None then Some r1
              else Option.bind
                (if Nodes (h ! node) \<noteq> [] then printNodes c h (level + 1) ended' (Nodes (h ! node))
                 else Some (emit []))
                (\<lambda>r2. if fst r2 \<noteq> None then Some (wseq r1 r2)
                      else Option.bind (printNodes c h level ended' rest)
                             (\<lambda>r3. Some (wseq (wseq r1 r2) r3)))))"

declare printNodes.simps [code]

text \<open>
  \<open>Writer(w)\<close>: a node without a parent prints its value (with its metadata)
  on a line of its own; a node with a parent prints its line through
  \<open>printValues\<close> at level 0, as a last child when it has no children. Then its
  children are printed at level 0.
\<close>

definition Writer :: "'a cfg \<Rightarrow> 'a heap \<Rightarrow> nat \<Rightarrow> wout option" where
  "Writer c h n =
     (let level = 0;
          (r1, ended) =
            (if Root (h ! n) = None then
               (wseq (case Meta (h ! n) of
                        Some m \<Rightarrow> emit (''['' @ fmtv c m @ '']  '' @ fmt_any (fmtv c) (Value (h ! n)))
                      | None \<Rightarrow> emit (fmt_any (fmtv c) (Value (h ! n))))
                     (emit [NL]), [])
             else
               (let (edge, ended) =
                      (if Nodes (h ! n) = [] then (EdgeTypeEnd c, [level]) else (EdgeTypeMid c, []))
                in (printValues c h 0 ended edge n, ended)))
      in if fst r1 \<noteq> None then Some r1
         else if Nodes (h ! n) \<noteq> [] then map_option (wseq r1) (printNodes c h level ended (Nodes (h ! n)))
         else Some r1)"

text \<open>\<open>Bytes()\<close> writes into a \<open>bytes.Buffer\<close> and returns its contents; a panic
  of the writer propagates. \<open>String()\<close> converts those bytes to a Go string,
  which is the same byte sequence.\<close>

definition Bytes :: "'a cfg \<Rightarrow> 'a heap \<Rightarrow> nat \<Rightarrow> (error + string) option" where
  "Bytes c h n = map_option (\<lambda>r. case fst r of Some e \<Rightarrow> Inl e | None \<Rightarrow> Inr (snd r)) (Writer c h n)"

definition String :: "'a cfg \<Rightarrow> 'a heap \<Rightarrow> nat \<Rightarrow> (error + string) option" where
  "String c h n = Bytes c h n"

section \<open>Abstract specification of the output\<close>

text \<open>
  What the renderer promises, written from the tree alone: the segment of an
  ancestor level is blank when the ancestor is the last of its siblings and a
  vertical link otherwise; a child's line is the segments of its ancestors, the
  end connector for a last child and the middle one otherwise, the metadata in
  brackets, and its value with every continuation line prefixed by the
  segments of its ancestors and of itself; the children follow their parent.
\<close>

definition seg :: "'a cfg \<Rightarrow> bool \<Rightarrow> string" where
  "seg c ended = (if ended then replicate (nat (IndentSize c + 1)) CHR '' ''
                  else EdgeTypeLink c @ replicate (nat (IndentSize c)) CHR '' '')"

fun spec_nodes :: "'a cfg \<Rightarrow> bool list \<Rightarrow> 'a tree list \<Rightarrow> string" where
  "spec_nodes c anc [] = []"
| "spec_nodes c anc (Tr m v ks # ts) =
     concat (map (seg c) anc) @ (if ts = [] then EdgeTypeEnd c else EdgeTypeMid c) @
     (case m of Some mm \<Rightarrow> '' ['' @ fmtv c mm @ '']  '' | None \<Rightarrow> '' '') @
     indent_lines (concat (map (seg c) (anc @ [ts = []]))) (fmt_any (fmtv c) v) @ [NL] @
     spec_nodes c (anc @ [ts = []]) ks @ spec_nodes c anc ts"

definition spec_render :: "'a cfg \<Rightarrow> 'a tree \<Rightarrow> string" where
  "spec_render c t =
     (case tmeta t of Some m \<Rightarrow> ''['' @ fmtv c m @ '']  '' | None \<Rightarrow> []) @
     fmt_any (fmtv c) (tval t) @ [NL] @ spec_nodes c [] (tkids t)"

text \<open>
  Rendering a node that has a parent (a subtree): its line at level 0 with the
  end connector when it has no children and the middle one otherwise, then its
  children at level 0 as well, as if they were the children of a root. This is
  what the code does when no value has a second line; \<open>single_line\<close> says so
  of a tree.
\<close>

fun single_line :: "'a cfg \<Rightarrow> 'a tree \<Rightarrow> bool" where
  "single_line c (Tr m v ks) = (NL \<notin> set (fmt_any (fmtv c) v) \<and> (\<forall>k \<in> set ks. single_line c k))"

text \<open>\<open>labels_one_line\<close>: no metadata and no value of the tree prints with a line break.\<close>

fun labels_one_line :: "'a cfg \<Rightarrow> 'a tree \<Rightarrow> bool" where
  "labels_one_line c (Tr m v ks) =
     (NL \<notin> set (fmt_any (fmtv c) m) \<and> NL \<notin> set (fmt_any (fmtv c) v) \<and> (\<forall>k \<in> set ks. labels_one_line c k))"

definition spec_subtree :: "'a cfg \<Rightarrow> 'a tree \<Rightarrow> string" where
  "spec_subtree c t =
     (if tkids t = [] then EdgeTypeEnd c else EdgeTypeMid c) @
     (case tmeta t of Some m \<Rightarrow> '' ['' @ fmtv c m @ '']  '' | None \<Rightarrow> '' '') @
     fmt_any (fmtv c) (tval t) @ [NL] @ spec_nodes c [] (tkids t)"

section \<open>Ancestor chains\<close>

text \<open>A path of nodes going down from a node, and for each of them whether it is
  the last child of the node above: what \<open>padding\<close> reads by walking up.\<close>

fun chain_ok :: "'a heap \<Rightarrow> nat \<Rightarrow> nat list \<Rightarrow> bool" where
  "chain_ok h p [] = True"
| "chain_ok h p (a # as) = (a \<in> set (Nodes (h ! p)) \<and> chain_ok h a as)"

fun chain_flags :: "'a heap \<Rightarrow> nat \<Rightarrow> nat list \<Rightarrow> bool list" where
  "chain_flags h p [] = []"
| "chain_flags h p (a # as) = (last (Nodes (h ! p)) = a) # chain_flags h a as"

text \<open>\<open>linked_from h r\<close>: every node below \<open>r\<close> (on a chain from \<open>r\<close>) that lists a
  child is that child's \<open>Root\<close>; the part of \<open>linked\<close> that a render from \<open>r\<close> reads.\<close>

definition linked_from :: "'a heap \<Rightarrow> nat \<Rightarrow> bool" where
  "linked_from h r \<longleftrightarrow>
     (\<forall>as. chain_ok h r as \<longrightarrow> (\<forall>c \<in> set (Nodes (h ! last (r # as))). Root (h ! c) = Some (last (r # as))))"

text \<open>Display columns of a UTF-8 byte string: the bytes that do not continue a character.\<close>

definition utf8_width :: "string \<Rightarrow> nat" where
  "utf8_width s = length (filter (\<lambda>ch. \<not> (128 \<le> (of_char ch :: nat) \<and> (of_char ch :: nat) < 192)) s)"

section \<open>Example trees\<close>

text \<open>A root with a branch \<open>A\<close> holding a two-line value.\<close>

definition ex_deep :: "gval heap" where
  "ex_deep = fst (AddNode (fst (AddBranch (fst (New [])) 0 (Some (GStr ''A'')))) 1 (Some (GStr (''x'' @ [NL] @ ''y''))))"

section \<open>Lemmas\<close>

subsection \<open>Unfolding the writer\<close>

lemma Writer_root:
  assumes "Root (h ! n) = None"
  shows "Writer c h n =
    (let r1 = emit ((case Meta (h ! n) of Some m \<Rightarrow> ''['' @ fmtv c m @ '']  '' | None \<Rightarrow> []) @
                    fmt_any (fmtv c) (Value (h ! n)) @ [NL])
     in if Nodes (h ! n) \<noteq> [] then map_option (wseq r1) (printNodes c h 0 [] (Nodes (h ! n))) else Some r1)"
  using assms by (simp add: Writer_def Let_def split: option.split)

lemma Writer_child:
  assumes "Root (h ! n) = Some p"
  shows "Writer c h n =
    (if Nodes (h ! n) = [] then Some (printValues c h 0 [0] (EdgeTypeEnd c) n)
     else (let r1 = printValues c h 0 [] (EdgeTypeMid c) n in
           if fst r1 \<noteq> None then Some r1 else map_option (wseq r1) (printNodes c h 0 [] (Nodes (h ! n)))))"
  using assms by (simp add: Writer_def Let_def)


subsection \<open>Segments, the prefix loop and the padding walk\<close>

lemma go_Repeat_seg:
  assumes "0 \<le> IndentSize c"
  shows "go_Repeat '' '' (IndentSize c + 1) = Inr (seg c True)"
    and "map_sum id (\<lambda>sp. EdgeTypeLink c @ sp) (go_Repeat '' '' (IndentSize c)) = Inr (seg c False)"
  using assms by (simp_all add: seg_def concat_replicate_single)

lemma isEnded_iff: "isEnded ls l \<longleftrightarrow> l \<in> set ls"
  by (induction ls) auto

lemma prefix_loop_seg:
  "0 \<le> IndentSize c \<Longrightarrow> \<forall>j < length anc. isEnded ended (int j) = anc ! j \<Longrightarrow> 0 \<le> i \<Longrightarrow>
   prefix_loop c ended i (int (length anc)) = emit (concat (map (seg c) (drop (nat i) anc)))"
proof (induction c ended i "int (length anc)" rule: prefix_loop.induct)
  case (1 c ended i)
  show ?case
  proof (cases "i < int (length anc)")
    case True
    then have d: "drop (nat i) anc = anc ! nat i # drop (nat (i + 1)) anc"
      using "1.prems" by (simp add: Cons_nth_drop_Suc nat_add_distrib)
    have "nat i < length anc" using True "1.prems" by (simp add: nat_less_iff)
    with "1.prems"(2) have "isEnded ended (int (nat i)) = anc ! nat i" by blast
    with "1.prems"(3) have e: "isEnded ended i = anc ! nat i" by simp
    show ?thesis
      using "1.hyps"[OF True] "1.prems" True d e
      by (simp add: prefix_loop.simps[of c ended i] go_Repeat_seg seg_def concat_replicate_single)
  next
    case False
    then show ?thesis using "1.prems" by (simp add: prefix_loop.simps[of c ended i])
  qed
qed

lemma FindLastNode_Some_iff: "FindLastNode h n = Some x \<longleftrightarrow> Nodes (h ! n) \<noteq> [] \<and> last (Nodes (h ! n)) = x"
  by (auto simp: FindLastNode_def Let_def last_conv_nth)

lemma chain_ok_snoc: "chain_ok h p (as @ [x]) \<longleftrightarrow> chain_ok h p as \<and> x \<in> set (Nodes (h ! last (p # as)))"
  by (induction as arbitrary: p) auto

lemma chain_flags_snoc:
  "chain_flags h p (as @ [x]) = chain_flags h p as @ [last (Nodes (h ! last (p # as))) = x]"
  by (induction as arbitrary: p) auto

lemma chain_ok_bound: "wf_heap h \<Longrightarrow> p < length h \<Longrightarrow> chain_ok h p as \<Longrightarrow> last (p # as) < length h"
proof (induction as arbitrary: p)
  case (Cons a as)
  from Cons.prems(3) have a: "a \<in> set (Nodes (h ! p))" and ch: "chain_ok h a as" by simp_all
  from wf_heapD(2)[OF Cons.prems(1,2) a] have "a < length h" by blast
  from Cons.IH[OF Cons.prems(1) this ch] show ?case by simp
qed simp

lemma isLast_child:
  assumes "Root (h ! x) = Some p" "x \<in> set (Nodes (h ! p))"
  shows "isLast h x = Inr (last (Nodes (h ! p)) = x)"
  using assms by (auto simp: isLast_def FindLastNode_Some_iff)

lemma chain_ok_mono: "wf_heap h \<Longrightarrow> p < length h \<Longrightarrow> chain_ok h p as \<Longrightarrow> p \<le> last (p # as)"
proof (induction as arbitrary: p)
  case (Cons a as)
  from Cons.prems(3) have a: "a \<in> set (Nodes (h ! p))" and ch: "chain_ok h a as" by simp_all
  from wf_heapD(2)[OF Cons.prems(1,2) a] have "p < a" "a < length h" by blast+
  with Cons.IH[OF Cons.prems(1) _ ch] show ?case by simp
qed simp

lemma linked_linked_from: "wf_heap h \<Longrightarrow> linked h \<Longrightarrow> r < length h \<Longrightarrow> linked_from h r"
  unfolding linked_from_def linked_def using chain_ok_bound by blast

text \<open>After \<open>Branch()\<close> on a node of a linked heap the render from that node reads
  the same links: only its own back pointer changed, and no node below it is the node itself.\<close>

lemma linked_from_Branch:
  assumes wf: "wf_heap h" and lk: "linked h" and n: "n < length h"
  shows "linked_from (fst (Branch h n)) n"
proof -
  let ?h = "fst (Branch h n)"
  have nodes: "Nodes (?h ! p) = Nodes (h ! p)" for p
    using n by (cases "p = n") (simp_all add: Branch_def)
  have ch: "chain_ok ?h q as = chain_ok h q as" for q as
    by (induction as arbitrary: q) (simp_all add: nodes)
  show ?thesis unfolding linked_from_def
  proof (intro allI impI ballI)
    fix as c assume cs: "chain_ok ?h n as" and c: "c \<in> set (Nodes (?h ! last (n # as)))"
    let ?p = "last (n # as)"
    from cs ch have cs': "chain_ok h n as" by simp
    have p: "?p < length h" "n \<le> ?p" using chain_ok_bound[OF wf n cs'] chain_ok_mono[OF wf n cs'] by simp_all
    from c nodes have c': "c \<in> set (Nodes (h ! ?p))" by simp
    from wf_heapD(2)[OF wf p(1) c'] have "?p < c" "c < length h" by blast+
    with p lk c' show "Root (?h ! c) = Some ?p" by (simp add: Branch_def linked_def)
  qed
qed

lemma drop_list_update_same: "n < length xs \<Longrightarrow> drop n (xs[n := y]) = y # drop (Suc n) xs"
  by (induction xs arbitrary: n) (auto split: nat.split)

text \<open>The padding walk climbs a chain below \<open>r\<close>, storing one segment per node, and
  arrives at \<open>r\<close> with the level at \<open>-1\<close>.\<close>

lemma padding_loop_up:
  assumes wf: "wf_heap h" and lk: "linked_from h r" and r: "r < length h" and I: "0 \<le> IndentSize c"
  shows "chain_ok h r as \<Longrightarrow> as \<noteq> [] \<Longrightarrow> length as \<le> length links \<Longrightarrow>
    padding_loop c h (int (length as) - 1) (last as) links =
    padding_loop c h (-1) r (map (seg c) (chain_flags h r as) @ drop (length as) links)"
proof (induction as arbitrary: links rule: rev_induct)
  case Nil
  then show ?case by simp
next
  case (snoc x bs)
  let ?p = "last (r # bs)"
  from snoc.prems(1) have cb: "chain_ok h r bs" and x: "x \<in> set (Nodes (h ! ?p))"
    by (simp_all add: chain_ok_snoc)
  have rx: "Root (h ! x) = Some ?p" using lk cb x by (simp add: linked_from_def)
  let ?f = "last (Nodes (h ! ?p)) = x"
  let ?l = "links[length bs := seg c ?f]"
  have sg: "(if ?f then go_Repeat '' '' (IndentSize c + 1)
             else map_sum id (\<lambda>sp. EdgeTypeLink c @ sp) (go_Repeat '' '' (IndentSize c))) = Inr (seg c ?f)"
    using I by (simp add: seg_def concat_replicate_single)
  have bl: "length bs < length links" using snoc.prems(3) by simp
  have "padding_loop c h (int (length (bs @ [x])) - 1) (last (bs @ [x])) links =
        padding_loop c h (int (length bs) - 1) ?p ?l"
    using bl sg isLast_child[OF rx x]
    by (simp add: padding_loop.simps[of c h "int (length bs)" x links] rx)
  also have "\<dots> = padding_loop c h (-1) r (map (seg c) (chain_flags h r bs) @ drop (length bs) ?l)"
    using snoc.IH[OF cb _, of ?l] bl by (cases "bs = []") simp_all
  also have "\<dots> = padding_loop c h (-1) r (map (seg c) (chain_flags h r (bs @ [x])) @ drop (length (bs @ [x])) links)"
    using bl by (simp add: drop_list_update_same chain_flags_snoc)
  finally show ?case .
qed

text \<open>At \<open>r\<close> the walk stops when \<open>r\<close> has no parent, and otherwise stores at index
  \<open>-1\<close>: index out of range.\<close>

lemma padding_loop_top:
  assumes "0 \<le> IndentSize c"
  shows "padding_loop c h (-1) r links = (case Root (h ! r) of None \<Rightarrow> Inr links | Some q \<Rightarrow> Inl IndexOutOfRange)"
  using assms
  by (auto simp: padding_loop.simps[of c h "-1" r links] isLast_def go_Repeat_seg split: option.split)

lemma padding_loop_chain:
  assumes wf: "wf_heap h" and lk: "linked_from h r" and r: "r < length h" and rt: "Root (h ! r) = None"
    and I: "0 \<le> IndentSize c"
  shows "chain_ok h r as \<Longrightarrow> as \<noteq> [] \<Longrightarrow> length as \<le> length links \<Longrightarrow>
    padding_loop c h (int (length as) - 1) (last as) links =
    Inr (map (seg c) (chain_flags h r as) @ drop (length as) links)"
  using padding_loop_up[OF wf lk r I] padding_loop_top[OF I] rt by simp

lemma padding_chain:
  assumes "wf_heap h" "linked_from h r" "r < length h" "Root (h ! r) = None" "0 \<le> IndentSize c"
    and "chain_ok h r as" "as \<noteq> []"
  shows "padding c h (int (length as) - 1) (last as) = Inr (concat (map (seg c) (chain_flags h r as)))"
proof -
  have n: "nat (int (length as) - 1 + 1) = length as" by simp
  show ?thesis
    using padding_loop_chain[OF assms(1-5) assms(6,7), of "replicate (length as) []"]
    by (simp add: padding_def n)
qed

lemma renderValue_chain:
  assumes "wf_heap h" "linked_from h r" "r < length h" "Root (h ! r) = None" "0 \<le> IndentSize c"
    and "chain_ok h r as" "as \<noteq> []"
  shows "renderValue c h (int (length as) - 1) (last as) =
    Inr (indent_lines (concat (map (seg c) (chain_flags h r as))) (fmt_any (fmtv c) (Value (h ! last as))))"
proof (cases "length (go_Split NL (fmt_any (fmtv c) (Value (h ! last as)))) < 2")
  case True
  then have "NL \<notin> set (fmt_any (fmtv c) (Value (h ! last as)))"
    by (simp add: length_go_Split count_list_0_iff)
  with True show ?thesis by (simp add: renderValue_def indent_lines_no_NL)
next
  case False
  then show ?thesis
    using padding_chain[OF assms] by (simp add: renderValue_def go_Join_Split_pad)
qed

lemma isEnded_set:
  "set ended = int ` {j. j < length anc \<and> anc ! j} \<Longrightarrow> j < length anc \<Longrightarrow> isEnded ended (int j) = anc ! j"
  by (auto simp: isEnded_iff)

text \<open>The line of a node, given how the values below \<open>r\<close> render: below a root
  by \<open>renderValue_chain\<close>, below any node when the values have one line.\<close>

lemma printValues_chain:
  assumes "0 \<le> IndentSize c" and "chain_ok h r (bs @ [x])"
    and "set ended = int ` {j. j < length anc \<and> anc ! j}" "chain_flags h r (bs @ [x]) = anc"
    and rv: "\<And>as. chain_ok h r as \<Longrightarrow> as \<noteq> [] \<Longrightarrow> renderValue c h (int (length as) - 1) (last as) =
       Inr (indent_lines (concat (map (seg c) (chain_flags h r as))) (fmt_any (fmtv c) (Value (h ! last as))))"
  shows "printValues c h (int (length bs)) ended edge x =
    emit (concat (map (seg c) (chain_flags h r bs)) @ edge @
          (case Meta (h ! x) of Some m \<Rightarrow> '' ['' @ fmtv c m @ '']  '' | None \<Rightarrow> '' '') @
          indent_lines (concat (map (seg c) anc)) (fmt_any (fmtv c) (Value (h ! x))) @ [NL])"
proof -
  let ?a = "chain_flags h r bs"
  have la: "anc = ?a @ [last (Nodes (h ! last (r # bs))) = x]" using assms(4) by (simp add: chain_flags_snoc)
  have pre: "\<forall>j < length ?a. isEnded ended (int j) = ?a ! j"
    using isEnded_set[OF assms(3)] la by (auto simp: nth_append)
  have "length ?a = length bs" by (induction bs arbitrary: r) simp_all
  then have pl: "prefix_loop c ended 0 (int (length bs)) = emit (concat (map (seg c) ?a))"
    using prefix_loop_seg[OF assms(1) pre, of 0] by simp
  have rv: "renderValue c h (int (length bs)) x = Inr (indent_lines (concat (map (seg c) anc)) (fmt_any (fmtv c) (Value (h ! x))))"
    using rv[OF assms(2)] assms(4) by simp
  show ?thesis using pl rv by (simp add: printValues_def wseq_def emit_def split: option.split)
qed


subsection \<open>printNodes against the specification\<close>

lemma printNodes_Cons_ok:
  assumes "printValues c h level (if rest = [] then ended @ [level] else ended)
             (if rest = [] then EdgeTypeEnd c else EdgeTypeMid c) node = emit l1"
    and "(if Nodes (h ! node) \<noteq> [] then printNodes c h (level + 1) (if rest = [] then ended @ [level] else ended) (Nodes (h ! node))
          else Some (emit [])) = Some (emit l2)"
    and "printNodes c h level (if rest = [] then ended @ [level] else ended) rest = Some (emit l3)"
  shows "printNodes c h level ended (node # rest) = Some (emit (l1 @ l2 @ l3))"
  using assms by (simp add: printNodes.simps[of c h level ended "node # rest"] Let_def)

lemma last_distinct_iff: "distinct (pre @ x # rest) \<Longrightarrow> last (pre @ x # rest) = x \<longleftrightarrow> rest = []"
  by (cases rest rule: rev_cases) auto

lemma length_chain_flags [simp]: "length (chain_flags h p as) = length as"
  by (induction as arbitrary: p) simp_all

lemma ended_snoc:
  "set ended = int ` {j. j < length anc \<and> anc ! j} \<Longrightarrow>
   set (if b then ended @ [int (length anc)] else ended) = int ` {j. j < length (anc @ [b]) \<and> (anc @ [b]) ! j}"
  by (auto simp: nth_append less_Suc_eq image_iff)

text \<open>One step along the children of the last node of a chain: the chain
  extended by the child, its flags and the updated \<open>levelsEnded\<close>.\<close>

lemma chain_step:
  assumes wf: "wf_heap h" and r: "r < length h" and ch: "chain_ok h r as" and fl: "chain_flags h r as = anc"
    and nx: "Nodes (h ! last (r # as)) = pre @ x # ns'" and en: "set ended = int ` {j. j < length anc \<and> anc ! j}"
    and b: "(ns' = []) = b"
  shows "chain_ok h r (as @ [x])"
    and "chain_flags h r (as @ [x]) = anc @ [b]"
    and "set (if ns' = [] then ended @ [int (length anc)] else ended) =
         int ` {j. j < length (anc @ [b]) \<and> (anc @ [b]) ! j}"
proof -
  have p: "last (r # as) < length h" using chain_ok_bound[OF wf r ch] .
  have f: "last (Nodes (h ! last (r # as))) = x \<longleftrightarrow> b"
    using wf_heapD(1)[OF wf p] nx b last_distinct_iff by metis
  show "chain_ok h r (as @ [x])" using ch nx by (simp add: chain_ok_snoc)
  show "chain_flags h r (as @ [x]) = anc @ [b]" using fl f by (simp add: chain_flags_snoc)
  show "set (if ns' = [] then ended @ [int (length anc)] else ended) =
        int ` {j. j < length (anc @ [b]) \<and> (anc @ [b]) ! j}"
    using ended_snoc[OF en, of b] b by simp
qed

text \<open>The children of a node are printed only when there are some.\<close>

lemma printNodes_kids:
  assumes "Nodes (h ! x) \<noteq> [] \<Longrightarrow> printNodes c h (int (length anc')) e (Nodes (h ! x)) = Some (emit (spec_nodes c anc' ks))"
    and "list_all2 (repr h) (Nodes (h ! x)) ks" and "length anc' = Suc n"
  shows "(if Nodes (h ! x) \<noteq> [] then printNodes c h (int n + 1) e (Nodes (h ! x)) else Some (emit [])) =
         Some (emit (spec_nodes c anc' ks))"
  using assms by (cases "Nodes (h ! x) = []") (simp_all add: add.commute)

lemma printNodes_chain:
  assumes wf: "wf_heap h" and r: "r < length h"
  shows "0 \<le> IndentSize c \<Longrightarrow>
    (\<And>as. chain_ok h r as \<Longrightarrow> as \<noteq> [] \<Longrightarrow> renderValue c h (int (length as) - 1) (last as) =
       Inr (indent_lines (concat (map (seg c) (chain_flags h r as))) (fmt_any (fmtv c) (Value (h ! last as))))) \<Longrightarrow>
    chain_ok h r as \<Longrightarrow> chain_flags h r as = anc \<Longrightarrow>
    Nodes (h ! last (r # as)) = pre @ ns \<Longrightarrow> list_all2 (repr h) ns ts \<Longrightarrow>
    set ended = int ` {j. j < length anc \<and> anc ! j} \<Longrightarrow>
    printNodes c h (int (length anc)) ended ns = Some (emit (spec_nodes c anc ts))"
proof (induction c anc ts arbitrary: as pre ns ended rule: spec_nodes.induct)
  case (1 c anc)
  then show ?case by (simp add: printNodes.simps)
next
  case (2 c anc m v ks ts)
  from "2.prems"(6) obtain x ns' where ns: "ns = x # ns'" and rx: "repr h x (Tr m v ks)"
    and rest: "list_all2 (repr h) ns' ts" by (auto simp: list_all2_Cons2)
  let ?b = "ts = []"
  let ?ended = "if ns' = [] then ended @ [int (length anc)] else ended"
  have b: "(ns' = []) = ?b" using rest by (auto simp: list_all2_Nil list_all2_Nil2)
  have nx: "Nodes (h ! last (r # as)) = pre @ x # ns'" using "2.prems"(5) ns by simp
  note st = chain_step[OF wf r "2.prems"(3,4) nx "2.prems"(7) b]
  have la: "length as = length anc" using "2.prems"(4) by auto
  from rx have mx: "m = Meta (h ! x)" and vx: "v = Value (h ! x)" and kx: "list_all2 (repr h) (Nodes (h ! x)) ks"
    by (auto elim: repr_elim)
  have r1: "printValues c h (int (length anc)) ?ended (if ns' = [] then EdgeTypeEnd c else EdgeTypeMid c) x =
    emit (concat (map (seg c) anc) @ (if ?b then EdgeTypeEnd c else EdgeTypeMid c) @
          (case m of Some mm \<Rightarrow> '' ['' @ fmtv c mm @ '']  '' | None \<Rightarrow> '' '') @
          indent_lines (concat (map (seg c) (anc @ [?b]))) (fmt_any (fmtv c) v) @ [NL])"
    using printValues_chain[OF "2.prems"(1) st(1,3,2) "2.prems"(2)] la "2.prems"(4) b mx vx by simp
  have r2: "(if Nodes (h ! x) \<noteq> [] then printNodes c h (int (length anc) + 1) ?ended (Nodes (h ! x))
            else Some (emit [])) = Some (emit (spec_nodes c (anc @ [?b]) ks))"
    using "2.IH"(1)[OF "2.prems"(1,2) st(1,2) _ kx st(3), of "[]"] by (intro printNodes_kids[OF _ kx]) simp_all
  have r3: "printNodes c h (int (length anc)) ?ended ns' = Some (emit (spec_nodes c anc ts))"
  proof (cases "ns' = []")
    case True
    with b show ?thesis by (simp add: printNodes.simps)
  next
    case False
    have "Nodes (h ! last (r # as)) = (pre @ [x]) @ ns'" using nx by simp
    from "2.IH"(2)[OF "2.prems"(1,2,3,4) this rest "2.prems"(7)] False show ?thesis by simp
  qed
  show ?case using printNodes_Cons_ok[OF r1 r2 r3] ns b by simp
qed

lemma printNodes_Cons_Some:
  assumes "(if Nodes (h ! node) \<noteq> [] then printNodes c h (level + 1) (if rest = [] then ended @ [level] else ended) (Nodes (h ! node))
            else Some (emit [])) = Some y2"
    and "printNodes c h level (if rest = [] then ended @ [level] else ended) rest = Some y3"
  shows "\<exists>y. printNodes c h level ended (node # rest) = Some y"
proof (cases "rest = []")
  case True
  with assms show ?thesis
    by (auto simp: printNodes.simps[of c h level ended "[node]"] printNodes.simps[of c h level "ended @ [level]" "[]"] Let_def)
next
  case False
  with assms show ?thesis by (auto simp: printNodes.simps[of c h level ended "node # rest"] Let_def)
qed

lemma printNodes_terminates:
  "list_all2 (repr h) ns ts \<Longrightarrow> \<exists>y. printNodes c h level ended ns = Some y"
proof (induction "size_list size ts" arbitrary: ts ns level ended rule: less_induct)
  case less
  show ?case
  proof (cases ts)
    case Nil
    with less.prems show ?thesis by (simp add: printNodes.simps)
  next
    case (Cons t ts')
    obtain m v ks where t: "t = Tr m v ks" by (cases t)
    from less.prems Cons t obtain x ns' where ns: "ns = x # ns'" and rx: "repr h x (Tr m v ks)"
      and rest: "list_all2 (repr h) ns' ts'" by (auto simp: list_all2_Cons2)
    from rx have kx: "list_all2 (repr h) (Nodes (h ! x)) ks" by (auto elim: repr_elim)
    let ?e = "if ns' = [] then ended @ [level] else ended"
    have "size_list size ks < size_list size ts" using Cons t by simp
    from less.hyps[OF this kx] have "\<exists>y. printNodes c h (level + 1) ?e (Nodes (h ! x)) = Some y" by blast
    then obtain y2 where
      y2: "(if Nodes (h ! x) \<noteq> [] then printNodes c h (level + 1) ?e (Nodes (h ! x)) else Some (emit [])) = Some y2"
      by (cases "Nodes (h ! x) = []") auto
    have "size_list size ts' < size_list size ts" using Cons by simp
    from less.hyps[OF this rest] obtain y3 where y3: "printNodes c h level ?e ns' = Some y3" by blast
    show ?thesis using printNodes_Cons_Some[OF y2 y3] ns by simp
  qed
qed

subsection \<open>No nil dereference\<close>

text \<open>\<open>isLast\<close> dereferences \<open>n.Root\<close>; \<open>padding\<close> calls it only inside its loop \<open>for node.Root != nil\<close>, and no other function of the renderer follows a pointer that may be nil.\<close>

lemma go_Repeat_not_nil: "go_Repeat s n \<noteq> Inl NilDereference"
  by (simp add: go_Repeat_def)

lemma padding_loop_not_nil: "padding_loop c h level node links \<noteq> Inl NilDereference"
proof (induction c h level node links rule: padding_loop.induct)
  case (1 c h level node links)
  show ?case
  proof (cases "Root (h ! node)")
    case (Some p)
    then show ?thesis using 1[OF Some]
      by (auto simp: padding_loop.simps[of c h level node links] isLast_def go_Repeat_def split: sum.splits if_splits)
  qed (simp add: padding_loop.simps[of c h level node links])
qed

lemma renderValue_not_nil: "renderValue c h level node \<noteq> Inl NilDereference"
  using padding_loop_not_nil[of c h level node "replicate (nat (level + 1)) []"]
  by (auto simp: renderValue_def padding_def Let_def split: sum.splits)

lemma prefix_loop_not_nil: "fst (prefix_loop c ended i level) \<noteq> Some NilDereference"
proof (induction c ended i level rule: prefix_loop.induct)
  case (1 c ended i level)
  then show ?case
    by (simp add: prefix_loop.simps[of c ended i level] wseq_def wbind_def go_Repeat_def split: option.splits sum.splits)
qed

lemma printValues_not_nil: "fst (printValues c h level ended edge node) \<noteq> Some NilDereference"
  using prefix_loop_not_nil[of c ended 0 level] renderValue_not_nil[of c h level node]
  by (auto simp: printValues_def wseq_def wbind_def split: option.splits sum.splits)

lemma printNodes_not_nil:
  assumes "printNodes c h level ended ns = Some y"
  shows "fst y \<noteq> Some NilDereference"
  apply (rule printNodes.raw_induct[where P = "\<lambda>c h level ended ns y. fst y \<noteq> Some NilDereference", OF _ assms])
  subgoal premises prems for S c h level ended ns y
    using prems(2) by (auto simp: Let_def wseq_def printValues_not_nil bind_eq_Some_conv emit_def split: list.splits if_splits option.splits dest: prems(1))
  done

lemma Writer_not_nil:
  assumes "Writer c h n = Some y"
  shows "fst y \<noteq> Some NilDereference"
  using assms printValues_not_nil[of c h 0] printNodes_not_nil[of c h 0]
  by (auto simp: Writer_def Let_def wseq_def emit_def split: if_splits option.splits prod.splits)

text \<open>C10: Rendering never panics with a nil pointer dereference, on any heap, from any node and with any configuration: isLast, which reads n.Root.FindLastNode(), is only reached inside padding's loop guarded by node.Root != nil.\<close>

theorem String_no_nil_dereference: "String c h n \<noteq> Some (Inl NilDereference)"
  using Writer_not_nil[of c h n] by (auto simp: String_def Bytes_def split: option.splits)

subsection \<open>The renderer implements the specification\<close>

text \<open>Rendering a tree from its root (a node whose Root is nil) with a non-negative IndentSize, when every listed child points back to its parent, writes the text of the abstract specification of the tree the root denotes and does not panic.\<close>

lemma Writer_refines_spec:
  assumes "wf_heap h" "linked_from h r" "r < length h" "Root (h ! r) = None" "repr h r t" "0 \<le> IndentSize c"
  shows "Writer c h r = Some (None, spec_render c t)"
proof -
  from assms(5) obtain ts where t: "t = Tr (Meta (h ! r)) (Value (h ! r)) ts"
    and ts: "list_all2 (repr h) (Nodes (h ! r)) ts" by (auto elim: repr_elim)
  have pn: "printNodes c h 0 [] (Nodes (h ! r)) = Some (emit (spec_nodes c [] ts))"
    using printNodes_chain[OF assms(1,3) assms(6) renderValue_chain[OF assms(1-4,6)], of "[]" "[]" "[]" "Nodes (h ! r)" ts "[]"]
      ts by simp
  show ?thesis
  proof (cases "Nodes (h ! r) = []")
    case True
    with ts have "ts = []" by simp
    with True t assms(4) show ?thesis
      by (simp add: Writer_root spec_render_def emit_def split: option.split)
  next
    case False
    with pn t assms(4) show ?thesis
      by (simp add: Writer_root spec_render_def emit_def wseq_def split: option.split)
  qed
qed

text \<open>On a well-formed heap Writer terminates from every node, whatever the configuration.\<close>

lemma Writer_terminates:
  assumes "wf_heap h" "n < length h"
  shows "\<exists>y. Writer c h n = Some y"
proof -
  from repr_exists[OF assms] obtain t where "repr h n t" by blast
  then have "list_all2 (repr h) (Nodes (h ! n)) (tkids t)" by (rule repr_D(4))
  from printNodes_terminates[OF this] have pn: "\<exists>y. printNodes c h 0 [] (Nodes (h ! n)) = Some y" by blast
  show ?thesis
  proof (cases "Root (h ! n)")
    case None
    with pn show ?thesis by (auto simp: Writer_root Let_def)
  next
    case (Some p)
    with pn show ?thesis by (auto simp: Writer_child Let_def)
  qed
qed

subsection \<open>Rendered examples\<close>

lemma renderValue_single:
  "NL \<notin> set (fmt_any (fmtv c) (Value (h ! x))) \<Longrightarrow> renderValue c h l x = Inr (fmt_any (fmtv c) (Value (h ! x)))"
  by (simp add: renderValue_def length_go_Split count_list_0_iff)

lemmas render_eval = Writer_root Writer_child printNodes.simps printValues_def prefix_loop.simps
  renderValue_def fmt_any_def default_cfg_def padding_def padding_loop.simps isLast_def FindLastNode_def
  String_def Bytes_def wseq_def wpanic_def emit_def New_def NewWithRoot_def AddNode_def AddMetaNode_def
  AddBranch_def alloc_def append_child_def

subsection \<open>Column widths\<close>

lemma utf8_width_append [simp]: "utf8_width (xs @ ys) = utf8_width xs + utf8_width ys"
  by (simp add: utf8_width_def)

lemma utf8_width_spaces [simp]: "utf8_width (replicate n CHR '' '') = n"
  by (induction n) (simp_all add: utf8_width_def)

lemma utf8_width_seg:
  "utf8_width (seg c b) = nat (IndentSize c + 1)" if "utf8_width (EdgeTypeLink c) = 1" "0 \<le> IndentSize c"
proof (cases b)
  case True
  then have "seg c b = replicate (nat (IndentSize c + 1)) CHR '' ''" by (simp only: seg_def if_True)
  then show ?thesis by (simp only: utf8_width_spaces)
next
  case False
  then have "seg c b = EdgeTypeLink c @ replicate (nat (IndentSize c)) CHR '' ''" by (simp add: seg_def)
  with that show ?thesis by (simp add: nat_add_distrib)
qed

lemma ex_deep_eval: "ex_deep = [\<lparr>Root = None, Meta = None, Value = Some (GStr ''.''), Nodes = [1]\<rparr>,
   \<lparr>Root = Some 0, Meta = None, Value = Some (GStr ''A''), Nodes = [2]\<rparr>,
   \<lparr>Root = Some 1, Meta = None, Value = Some (GStr (''x'' @ [NL] @ ''y'')), Nodes = []\<rparr>]"
  by (simp add: ex_deep_def New_def NewWithRoot_def AddNode_def AddBranch_def alloc_def append_child_def)

lemma utf8_width_segs:
  "utf8_width (EdgeTypeLink c) = 1 \<Longrightarrow> 0 \<le> IndentSize c \<Longrightarrow>
   utf8_width (concat (map (seg c) bs)) = length bs * nat (IndentSize c + 1)"
  by (induction bs) (simp_all add: utf8_width_seg utf8_width_def[of "[]"])

text \<open>C17: For a node at level L (the chain of L+1 nodes below the render root), padding returns L+1 segments of IndentSize+1 columns each, (L+1)(IndentSize+1) columns in all, whenever the vertical link is one column wide; the node's own line puts its text after L segments, the connector and one space, so a continuation line is aligned with the first line only when the connector is IndentSize-1 columns wide (2 columns for the default glyphs, i.e. IndentSize = 3 overshoots by one).\<close>

theorem padding_width:
  assumes "wf_heap h" "linked h" "r < length h" "Root (h ! r) = None" "0 \<le> IndentSize c"
    and "utf8_width (EdgeTypeLink c) = 1" "chain_ok h r as" "as \<noteq> []"
  shows "\<exists>pad. padding c h (int (length as) - 1) (last as) = Inr pad \<and>
           utf8_width pad = length as * nat (IndentSize c + 1) \<and>
           utf8_width pad = utf8_width (concat (map (seg c) (chain_flags h r (butlast as)))) + nat (IndentSize c + 1)"
proof -
  let ?k = "nat (IndentSize c + 1)" and ?pad = "concat (map (seg c) (chain_flags h r as))"
  have w: "utf8_width ?pad = length as * ?k" using utf8_width_segs[OF assms(6,5)] by simp
  have w': "utf8_width (concat (map (seg c) (chain_flags h r (butlast as)))) = length (butlast as) * ?k"
    using utf8_width_segs[OF assms(6,5)] by simp
  have l: "length as * ?k = length (butlast as) * ?k + ?k" using assms(8) by (cases as rule: rev_cases) simp_all
  from padding_chain[OF assms(1) linked_linked_from[OF assms(1-3)] assms(3-5,7,8)] w w' l show ?thesis by metis
qed

theorem padding_width_witness:
  "padding (default_cfg fmt_gval) ex_deep 1 2 = Inr (replicate 8 CHR '' '') \<and>
   utf8_width (replicate 8 CHR '' '') = 2 * nat (IndentSize (default_cfg fmt_gval) + 1)"
proof -
  have ch: "chain_ok ex_deep 0 [1, 2]" by (simp add: ex_deep_eval)
  have pre: "wf_heap ex_deep" "linked ex_deep" "(0::nat) < length ex_deep" "Root (ex_deep ! 0) = None"
    "0 \<le> IndentSize (default_cfg fmt_gval)" "utf8_width (EdgeTypeLink (default_cfg fmt_gval)) = 1"
    by (simp_all add: ex_deep_eval wf_heap_def linked_def utf8_width_def default_cfg_def less_Suc_eq)
  have p: "padding (default_cfg fmt_gval) ex_deep 1 2 = Inr (replicate 8 CHR '' '')"
    by (simp add: ex_deep_eval render_eval)
  from padding_width[OF pre ch] p show ?thesis by simp
qed
subsection \<open>Rendering a subtree\<close>

lemma repr_labels:
  assumes "\<forall>q < length h. NL \<notin> set (fmt_any (fmtv c) (Meta (h ! q))) \<and> NL \<notin> set (fmt_any (fmtv c) (Value (h ! q)))"
  shows "repr h p t \<Longrightarrow> labels_one_line c t"
proof (induction rule: repr.induct)
  case (repr_node n ts)
  then show ?case using assms by (auto simp: list_all2_conv_all_nth in_set_conv_nth)
qed

lemma single_line_chain:
  "repr h n t \<Longrightarrow> single_line c t \<Longrightarrow> chain_ok h n as \<Longrightarrow> as \<noteq> [] \<Longrightarrow>
   NL \<notin> set (fmt_any (fmtv c) (Value (h ! last as)))"
proof (induction as arbitrary: n t)
  case (Cons a as)
  from Cons.prems(1) obtain ts where t: "t = Tr (Meta (h ! n)) (Value (h ! n)) ts"
    and ts: "list_all2 (repr h) (Nodes (h ! n)) ts" by (auto elim: repr_elim)
  from Cons.prems(3) have a: "a \<in> set (Nodes (h ! n))" and ch: "chain_ok h a as" by simp_all
  from a obtain i where i: "i < length (Nodes (h ! n))" "Nodes (h ! n) ! i = a" by (auto simp: in_set_conv_nth)
  with ts have u: "repr h a (ts ! i)" and uin: "ts ! i \<in> set ts" by (auto simp: list_all2_conv_all_nth)
  from Cons.prems(2) t uin have su: "single_line c (ts ! i)" by simp
  show ?case
  proof (cases "as = []")
    case True
    have "tval (ts ! i) = Value (h ! a)" using repr_D(3)[OF u] .
    with su True show ?thesis by (cases "ts ! i") simp
  next
    case False
    from Cons.IH[OF u su ch False] False show ?thesis by simp
  qed
qed simp

text \<open>C6: Rendering a node that has a parent (String() on a subtree), on a well-formed heap with a non-negative IndentSize and values of one line each, writes exactly spec_subtree of the tree the node denotes: its own line at level 0 with the end connector if it has no children and the middle one otherwise, then its children printed at level 0 as if they were the children of a root.\<close>

theorem String_subtree_spec:
  assumes "wf_heap h" "n < length h" "Root (h ! n) \<noteq> None" "repr h n t" "0 \<le> IndentSize c"
    and "single_line c t"
  shows "String c h n = Some (Inr (spec_subtree c t))"
proof -
  obtain p where rp: "Root (h ! n) = Some p" using assms(3) by auto
  from assms(4) obtain ts where t: "t = Tr (Meta (h ! n)) (Value (h ! n)) ts"
    and ts: "list_all2 (repr h) (Nodes (h ! n)) ts" by (auto elim: repr_elim)
  have rv: "\<And>as. chain_ok h n as \<Longrightarrow> as \<noteq> [] \<Longrightarrow> renderValue c h (int (length as) - 1) (last as) =
      Inr (indent_lines (concat (map (seg c) (chain_flags h n as))) (fmt_any (fmtv c) (Value (h ! last as))))"
    using single_line_chain[OF assms(4,6)] by (simp add: renderValue_single indent_lines_no_NL)
  have pn: "printNodes c h 0 [] (Nodes (h ! n)) = Some (emit (spec_nodes c [] ts))"
    using printNodes_chain[OF assms(1,2) assms(5) rv, of "[]" "[]" "[]" "Nodes (h ! n)" ts "[]"] ts by simp
  have nl: "NL \<notin> set (fmt_any (fmtv c) (Value (h ! n)))" using assms(6) t by simp
  have pv: "printValues c h 0 e edge n = emit (edge @
      (case Meta (h ! n) of Some m \<Rightarrow> '' ['' @ fmtv c m @ '']  '' | None \<Rightarrow> '' '') @ fmt_any (fmtv c) (Value (h ! n)) @ [NL])"
    for e edge using nl by (simp add: printValues_def prefix_loop.simps renderValue_single split: option.split)
  show ?thesis
  proof (cases "Nodes (h ! n) = []")
    case True
    with ts have "ts = []" by simp
    with True t rp pv show ?thesis by (simp add: Writer_child String_def Bytes_def spec_subtree_def)
  next
    case False
    with ts have "ts \<noteq> []" by auto
    with False t rp pv pn show ?thesis by (simp add: Writer_child String_def Bytes_def spec_subtree_def wseq_def)
  qed
qed

theorem String_subtree_spec_witness:
  "wf_heap ex_tree \<and> (1::nat) < length ex_tree \<and> Root (ex_tree ! 1) \<noteq> None \<and>
   repr ex_tree 1 (Tr None (Some (GStr ''A'')) [Tr None (Some (GStr ''x'')) []]) \<and>
   0 \<le> IndentSize (default_cfg fmt_gval) \<and>
   single_line (default_cfg fmt_gval) (Tr None (Some (GStr ''A'')) [Tr None (Some (GStr ''x'')) []]) \<and>
   String (default_cfg fmt_gval) ex_tree 1 =
     Some (Inr (spec_subtree (default_cfg fmt_gval) (Tr None (Some (GStr ''A'')) [Tr None (Some (GStr ''x'')) []])))"
proof -
  have pre: "(1::nat) < length ex_tree" "Root (ex_tree ! 1) \<noteq> None"
    "repr ex_tree 1 (Tr None (Some (GStr ''A'')) [Tr None (Some (GStr ''x'')) []])"
    "0 \<le> IndentSize (default_cfg fmt_gval)"
    "single_line (default_cfg fmt_gval) (Tr None (Some (GStr ''A'')) [Tr None (Some (GStr ''x'')) []])"
    by (simp_all add: ex_tree_eval repr_Tr default_cfg_def fmt_any_def)
  from wf_ex_tree pre String_subtree_spec[OF wf_ex_tree pre] show ?thesis by blast
qed

text \<open>With a non-negative \<open>IndentSize\<close> the only panic of a line is the index out
  of range of \<open>padding\<close>, and a multi-line value at the end of a chain below a node
  that has a parent always hits it: the walk climbs past that node.\<close>

lemma padding_loop_nonneg:
  "0 \<le> IndentSize c \<Longrightarrow> padding_loop c h level x links \<in> {Inl IndexOutOfRange} \<union> range Inr"
proof (induction c h level x links rule: padding_loop.induct)
  case (1 c h level node links)
  show ?case
  proof (cases "Root (h ! node)")
    case (Some p)
    then show ?thesis using 1(1)[OF Some] 1(2)
      by (auto simp: padding_loop.simps[of c h level node links] isLast_def go_Repeat_seg split: if_splits)
  qed (simp add: padding_loop.simps[of c h level node links])
qed

lemma prefix_loop_nonneg: "0 \<le> IndentSize c \<Longrightarrow> fst (prefix_loop c ended i level) = None"
proof (induction c ended i level rule: prefix_loop.induct)
  case (1 c ended i level)
  then show ?case by (simp add: prefix_loop.simps[of c ended i level] go_Repeat_def wseq_def wbind_def emit_def)
qed

lemma printValues_nonneg:
  assumes I: "0 \<le> IndentSize c" and l: "0 \<le> level"
  shows "fst (printValues c h level ended edge x) \<in> {None, Some IndexOutOfRange}"
proof -
  have "fst (prefix_loop c ended 0 level) = None" using prefix_loop_nonneg[OF I] .
  moreover have "renderValue c h level x \<in> {Inl IndexOutOfRange} \<union> range Inr"
    using padding_loop_nonneg[OF I, of h level x "replicate (nat (level + 1)) []"] l
    by (auto simp: renderValue_def padding_def Let_def split: sum.split)
  ultimately show ?thesis
    by (auto simp: printValues_def wseq_def wbind_def wpanic_def emit_def split: option.split sum.split)
qed

lemma printValues_multiline:
  assumes wf: "wf_heap h" and lk: "linked_from h r" and r: "r < length h" and I: "0 \<le> IndentSize c"
    and rt: "Root (h ! r) \<noteq> None" and ch: "chain_ok h r as" "as \<noteq> []"
    and nl: "NL \<in> set (fmt_any (fmtv c) (Value (h ! last as)))"
  shows "fst (printValues c h (int (length as) - 1) ended edge (last as)) = Some IndexOutOfRange"
proof -
  have "padding_loop c h (int (length as) - 1) (last as) (replicate (length as) []) = Inl IndexOutOfRange"
    using padding_loop_up[OF wf lk r I ch, of "replicate (length as) []"] padding_loop_top[OF I] rt
    by (auto split: option.split)
  moreover have "nat (int (length as) - 1 + 1) = length as" by simp
  moreover have "\<not> length (go_Split NL (fmt_any (fmtv c) (Value (h ! last as)))) < 2"
    using nl by (simp add: length_go_Split count_list_0_iff)
  ultimately have "renderValue c h (int (length as) - 1) (last as) = Inl IndexOutOfRange"
    by (simp add: renderValue_def padding_def Let_def)
  moreover have "0 \<le> int (length as) - 1" using ch(2) by simp
  ultimately show ?thesis
    using printValues_nonneg[OF I, of "int (length as) - 1" h ended edge "last as"]
    by (auto simp: printValues_def wseq_def wbind_def wpanic_def split: option.split)
qed

lemma fst_wseq: "fst (wseq a b) = (if fst a = None then fst b else fst a)"
  by (auto simp: wseq_def split: option.split)

lemma printNodes_multiline:
  assumes wf: "wf_heap h" and lk: "linked_from h r" and r: "r < length h" and I: "0 \<le> IndentSize c"
    and rt: "Root (h ! r) \<noteq> None"
  shows "list_all2 (repr h) ns ts \<Longrightarrow> chain_ok h r as \<Longrightarrow> Nodes (h ! last (r # as)) = pre @ ns \<Longrightarrow>
    \<exists>y. printNodes c h (int (length as)) ended ns = Some y \<and> fst y \<in> {None, Some IndexOutOfRange} \<and>
        (\<not> list_all (single_line c) ts \<longrightarrow> fst y = Some IndexOutOfRange)"
proof (induction "size_list size ts" arbitrary: ts ns as pre ended rule: less_induct)
  case less
  show ?case
  proof (cases ts)
    case Nil
    with less.prems show ?thesis by (simp add: printNodes.simps emit_def)
  next
    case (Cons t ts')
    obtain m v ks where t: "t = Tr m v ks" by (cases t)
    from less.prems(1) Cons t obtain x ns' where ns: "ns = x # ns'" and rx: "repr h x (Tr m v ks)"
      and rest: "list_all2 (repr h) ns' ts'" by (auto simp: list_all2_Cons2)
    from rx have kx: "list_all2 (repr h) (Nodes (h ! x)) ks" and vx: "v = Value (h ! x)" by (auto elim: repr_elim)
    have chx: "chain_ok h r (as @ [x])" using less.prems(2,3) ns by (simp add: chain_ok_snoc)
    let ?l = "int (length as)"
    let ?e = "if ns' = [] then ended @ [?l] else ended"
    let ?r1 = "printValues c h ?l ?e (if ns' = [] then EdgeTypeEnd c else EdgeTypeMid c) x"
    have r1: "fst ?r1 \<in> {None, Some IndexOutOfRange}" by (rule printValues_nonneg[OF I]) simp
    have r1nl: "NL \<in> set (fmt_any (fmtv c) v) \<Longrightarrow> fst ?r1 = Some IndexOutOfRange"
      using printValues_multiline[OF wf lk r I rt chx] vx by simp
    have "size_list size ks < size_list size ts" using Cons t by simp
    from less.hyps[OF this kx chx, of "[]" ?e]
    have IH2: "\<exists>y. printNodes c h (?l + 1) ?e (Nodes (h ! x)) = Some y \<and> fst y \<in> {None, Some IndexOutOfRange} \<and>
        (\<not> list_all (single_line c) ks \<longrightarrow> fst y = Some IndexOutOfRange)" by (simp add: add.commute)
    obtain y2 where
      y2: "(if Nodes (h ! x) \<noteq> [] then printNodes c h (?l + 1) ?e (Nodes (h ! x)) else Some (emit [])) = Some y2"
      and y2f: "fst y2 \<in> {None, Some IndexOutOfRange}" "\<not> list_all (single_line c) ks \<Longrightarrow> fst y2 = Some IndexOutOfRange"
    proof (cases "Nodes (h ! x) = []")
      case True
      with kx have "ks = []" by simp
      with True that[of "emit []"] show ?thesis by (simp add: emit_def)
    next
      case False
      with IH2 that show ?thesis by auto
    qed
    have "size_list size ts' < size_list size ts" using Cons by simp
    from less.hyps[OF this rest less.prems(2), of "pre @ [x]" ?e] less.prems(3) ns obtain y3 where
      y3: "printNodes c h ?l ?e ns' = Some y3" and y3f: "fst y3 \<in> {None, Some IndexOutOfRange}"
        "\<not> list_all (single_line c) ts' \<Longrightarrow> fst y3 = Some IndexOutOfRange" by auto
    have pn: "printNodes c h ?l ended ns = (if fst ?r1 \<noteq> None then Some ?r1 else
        Some (if fst y2 \<noteq> None then wseq ?r1 y2 else wseq (wseq ?r1 y2) y3))"
      using y2 y3 ns by (subst printNodes.simps) (simp add: Let_def)
    let ?y = "if fst ?r1 \<noteq> None then ?r1 else if fst y2 \<noteq> None then wseq ?r1 y2 else wseq (wseq ?r1 y2) y3"
    have "pn' = Some ?y" if "pn' = printNodes c h ?l ended ns" for pn'
      using that pn by simp
    moreover have "fst ?y \<in> {None, Some IndexOutOfRange}" using r1 y2f(1) y3f(1) by (auto simp: fst_wseq)
    moreover have "\<not> list_all (single_line c) ts \<Longrightarrow> fst ?y = Some IndexOutOfRange"
      using r1 r1nl y2f y3f Cons t by (auto simp: fst_wseq list_all_iff) blast+
    ultimately show ?thesis by blast
  qed
qed

text \<open>C18: Rendering a node that has a parent (String() on a subtree) panics with an index out of range whenever a value below it has more than one line, on every well-formed heap whose children point back to their parents and with any non-negative IndentSize: padding sizes its slice by the level below the rendered node but walks the Root pointers past that node.\<close>

theorem String_subtree_multiline_panics:
  assumes wf: "wf_heap h" and lk: "linked h" and t: "repr h n t" and rt: "Root (h ! n) \<noteq> None"
    and I: "0 \<le> IndentSize c" and ml: "\<not> list_all (single_line c) (tkids t)"
  shows "String c h n = Some (Inl IndexOutOfRange)"
proof -
  have n: "n < length h" and kids: "list_all2 (repr h) (Nodes (h ! n)) (tkids t)" using repr_D[OF t] by simp_all
  from rt obtain p where p: "Root (h ! n) = Some p" by blast
  have ne: "Nodes (h ! n) \<noteq> []" using kids ml by auto
  from printNodes_multiline[OF wf linked_linked_from[OF wf lk n] n I rt kids, of "[]" "[]" "[]"] ml
  obtain y where y: "printNodes c h 0 [] (Nodes (h ! n)) = Some y" "fst y = Some IndexOutOfRange" by auto
  have r1: "fst (printValues c h 0 [] (EdgeTypeMid c) n) \<in> {None, Some IndexOutOfRange}"
    by (rule printValues_nonneg[OF I]) simp
  let ?r1 = "printValues c h 0 [] (EdgeTypeMid c) n"
  have "Writer c h n = Some (if fst ?r1 \<noteq> None then ?r1 else wseq ?r1 y)"
    using Writer_child[OF p, of c] ne y by simp
  moreover have "fst (if fst ?r1 \<noteq> None then ?r1 else wseq ?r1 y) = Some IndexOutOfRange"
    using r1 y by (auto simp: fst_wseq)
  ultimately have "\<exists>w. Writer c h n = Some w \<and> fst w = Some IndexOutOfRange" by blast
  then show ?thesis by (auto simp: String_def Bytes_def)
qed

theorem String_subtree_multiline_panics_witness:
  "wf_heap ex_deep \<and> linked ex_deep \<and> Root (ex_deep ! 1) \<noteq> None \<and> 0 \<le> IndentSize (default_cfg fmt_gval) \<and>
   repr ex_deep 1 (Tr None (Some (GStr ''A'')) [Tr None (Some (GStr (''x'' @ [NL] @ ''y''))) []]) \<and>
   \<not> list_all (single_line (default_cfg fmt_gval)) [Tr None (Some (GStr (''x'' @ [NL] @ ''y''))) []] \<and>
   String (default_cfg fmt_gval) ex_deep 1 = Some (Inl IndexOutOfRange)"
proof -
  have pre: "wf_heap ex_deep" "linked ex_deep"
    "repr ex_deep 1 (Tr None (Some (GStr ''A'')) [Tr None (Some (GStr (''x'' @ [NL] @ ''y''))) []])"
    "Root (ex_deep ! 1) \<noteq> None" "0 \<le> IndentSize (default_cfg fmt_gval)"
    "\<not> list_all (single_line (default_cfg fmt_gval)) (tkids (Tr None (Some (GStr ''A'')) [Tr None (Some (GStr (''x'' @ [NL] @ ''y''))) []]))"
    by (simp_all add: ex_deep_eval wf_heap_def linked_def less_Suc_eq repr_Tr default_cfg_def fmt_any_def)
  from String_subtree_multiline_panics[OF pre] pre show ?thesis by simp
qed

subsection \<open>Configuration errors\<close>

text \<open>With \<open>IndentSize < -1\<close> every segment \<open>strings.Repeat\<close> is asked for has a
  negative count: a line below level 0 panics in its prefix, and the padding
  of a multi-line value panics as soon as it is computed.\<close>

lemma prefix_loop_negative:
  "IndentSize c < -1 \<Longrightarrow> 0 < level \<Longrightarrow> fst (prefix_loop c ended 0 level) = Some NegativeRepeatCount"
  by (simp add: prefix_loop.simps[of c ended 0 level])

lemma padding_loop_negative:
  "IndentSize c < -1 \<Longrightarrow> padding_loop c h level x links \<in> {Inl NegativeRepeatCount} \<union> range Inr"
  by (auto simp: padding_loop.simps[of c h level x links] isLast_def split: option.split)

lemma renderValue_negative:
  "IndentSize c < -1 \<Longrightarrow> renderValue c h 0 x \<in> {Inl NegativeRepeatCount} \<union> range Inr"
  using padding_loop_negative[of c h 0 x "[[]]"]
  by (auto simp: renderValue_def padding_def Let_def split: sum.split)

lemma printValues_level0_negative:
  "IndentSize c < -1 \<Longrightarrow> fst (printValues c h 0 ended edge x) \<in> {None, Some NegativeRepeatCount}"
  using renderValue_negative[of c h x]
  by (auto simp: printValues_def prefix_loop.simps[of c ended 0 0] wbind_def split: option.split sum.split)

lemma printValues_negative:
  "IndentSize c < -1 \<Longrightarrow> 0 < level \<Longrightarrow> fst (printValues c h level ended edge x) = Some NegativeRepeatCount"
  using prefix_loop_negative[of c level ended] by (simp add: printValues_def)

lemma ex_fst_eq: "(\<exists>b. p = (a, b)) \<longleftrightarrow> fst p = a"
  by (cases p) auto

text \<open>A panic on the line of the first node of a loop, or in the loop over its
  children, stops \<open>printNodes\<close> with that panic.\<close>

lemma printNodes_panic:
  assumes "fst (printValues c h level (if rest = [] then ended @ [level] else ended)
                 (if rest = [] then EdgeTypeEnd c else EdgeTypeMid c) node) = Some e \<or>
           (fst (printValues c h level (if rest = [] then ended @ [level] else ended)
                 (if rest = [] then EdgeTypeEnd c else EdgeTypeMid c) node) = None \<and> Nodes (h ! node) \<noteq> [] \<and>
            (\<exists>r2. printNodes c h (level + 1) (if rest = [] then ended @ [level] else ended) (Nodes (h ! node)) = Some r2 \<and>
                 fst r2 = Some e))"
  shows "\<exists>r. printNodes c h level ended (node # rest) = Some r \<and> fst r = Some e"
  using assms by (auto simp: printNodes.simps[of c h level ended "node # rest"] Let_def wseq_def ex_fst_eq)


text \<open>C19: With IndentSize below -1, rendering any root whose first child has children panics with a negative strings.Repeat count, whatever the heap: the first grandchild's line needs a segment, and any earlier multi-line value panics the same way.\<close>

theorem negative_indent_panics_general:
  assumes "IndentSize c < -1" "Root (h ! r) = None" "Nodes (h ! r) = x # xs" "Nodes (h ! x) \<noteq> []"
  shows "String c h r = Some (Inl NegativeRepeatCount)"
proof -
  obtain y ys where y: "Nodes (h ! x) = y # ys" using assms(4) by (cases "Nodes (h ! x)") auto
  let ?e = "if xs = [] then [0] else ([] :: int list)"
  have inner: "\<exists>r2. printNodes c h (0 + 1) ?e (Nodes (h ! x)) = Some r2 \<and> fst r2 = Some NegativeRepeatCount"
    unfolding y by (rule printNodes_panic) (simp add: printValues_negative[OF assms(1)])
  have outer: "\<exists>r. printNodes c h 0 [] (x # xs) = Some r \<and> fst r = Some NegativeRepeatCount"
    using printValues_level0_negative[OF assms(1), of h ?e "if xs = [] then EdgeTypeEnd c else EdgeTypeMid c" x]
      inner assms(4)
    by (intro printNodes_panic) auto
  then show ?thesis using assms(2,3)
    by (auto simp: String_def Bytes_def Writer_root wseq_def split: option.split)
qed
theorem negative_indent_panics_general_witness:
  "IndentSize ((default_cfg fmt_gval)\<lparr>IndentSize := -2\<rparr>) < -1 \<and> Root (ex_tree ! 0) = None \<and>
   Nodes (ex_tree ! 0) = 1 # [3] \<and> Nodes (ex_tree ! 1) \<noteq> [] \<and>
   String ((default_cfg fmt_gval)\<lparr>IndentSize := -2\<rparr>) ex_tree 0 = Some (Inl NegativeRepeatCount)"
proof -
  have pre: "IndentSize ((default_cfg fmt_gval)\<lparr>IndentSize := -2\<rparr>) < -1" "Root (ex_tree ! 0) = None"
    "Nodes (ex_tree ! 0) = 1 # [3]" "Nodes (ex_tree ! 1) \<noteq> []" by (simp_all add: ex_tree_eval)
  from pre negative_indent_panics_general[OF pre] show ?thesis by blast
qed


subsection \<open>Branch\<close>

text \<open>C7: Branch() on any node of a well-formed tree whose children all point back to their parents returns the node itself, and afterwards String() on that node renders it as the root of its own tree: exactly the text of the abstract specification of the tree it denotes, without a panic, even though its parent still lists it.\<close>

theorem Branch_String_root:
  assumes wf: "wf_heap h" and lk: "linked h" and n: "n < length h" and t: "repr h n t"
    and I: "0 \<le> IndentSize c"
  shows "snd (Branch h n) = n \<and> String c (fst (Branch h n)) n = Some (Inr (spec_render c t))"
proof -
  have len: "n < length (fst (Branch h n))" and rt: "Root (fst (Branch h n) ! n) = None"
    using n by (simp_all add: Branch_def)
  from Writer_refines_spec[OF wf_heap_Branch[OF wf] linked_from_Branch[OF wf lk n] len rt repr_Branch[OF t] I]
  show ?thesis by (simp add: String_def Bytes_def Branch_def)
qed

theorem Branch_String_root_witness:
  "wf_heap ex_tree \<and> linked ex_tree \<and> (1::nat) < length ex_tree \<and>
   repr ex_tree 1 (Tr None (Some (GStr ''A'')) [Tr None (Some (GStr ''x'')) []]) \<and>
   0 \<le> IndentSize (default_cfg fmt_gval) \<and>
   snd (Branch ex_tree 1) = 1 \<and>
   String (default_cfg fmt_gval) (fst (Branch ex_tree 1)) 1 =
     Some (Inr (spec_render (default_cfg fmt_gval) (Tr None (Some (GStr ''A'')) [Tr None (Some (GStr ''x'')) []])))"
proof -
  have pre: "linked ex_tree" "(1::nat) < length ex_tree"
    "repr ex_tree 1 (Tr None (Some (GStr ''A'')) [Tr None (Some (GStr ''x'')) []])"
    "0 \<le> IndentSize (default_cfg fmt_gval)"
    by (simp_all add: ex_tree_eval linked_def less_Suc_eq repr_Tr default_cfg_def)
  from Branch_String_root[OF wf_ex_tree pre] pre wf_ex_tree show ?thesis by simp
qed

end
