(* ===== verification/Search.thy ===== *)
theory Search
  imports Node
begin

text \<open>
  Search and traversal of \<open>src/treeprint.go\<close>: \<open>FindByMeta\<close>,
  \<open>FindByValue\<close> and \<open>VisitAll\<close>, which walk the pointer graph of the
  heap of theory \<open>Node\<close> and are \<^theory_text>\<open>partial_function (option)\<close>s
  (\<open>None\<close>: the walk does not end). Their meaning is given on the abstract
  trees of theory \<open>Node\<close>: the pre-order list of paths of a tree
  (\<open>paths_from\<close>), the node a path leads to (\<open>follow\<close>), and the first
  pre-order position with a given metadata (\<open>find_meta_path\<close>), and what
  \<open>FindByValue\<close> looks for instead (\<open>find_value_meta_path\<close>: a child's value,
  below the children the metadata).
  On the heap, the pre-order list of a node's descendants holds each of them
  once when every node has one parent (\<open>preorder_set\<close>,
  \<open>preorder_distinct\<close>), which gives the completeness of \<open>FindByMeta\<close> and
  of \<open>VisitAll\<close>.
\<close>

section \<open>Search\<close>

text \<open>
  The \<open>for _, node := range n.Nodes\<close> loop of \<open>FindByMeta\<close> as recursion over
  the rest of the slice; the call \<open>node.FindByMeta(meta)\<close> is the loop over
  \<open>node.Nodes\<close>. The result \<open>Some None\<close> is Go's \<open>nil\<close>.
\<close>

partial_function (option) findByMeta_loop :: "'a heap \<Rightarrow> 'a any \<Rightarrow> nat list \<Rightarrow> nat option option" where
  "findByMeta_loop h meta ns =
     (case ns of
        [] \<Rightarrow> Some None
      | node # rest \<Rightarrow>
          (if Meta (h ! node) = meta then Some (Some node)
           else Option.bind (findByMeta_loop h meta (Nodes (h ! node)))
                  (\<lambda>v. if v \<noteq> None then Some v else findByMeta_loop h meta rest)))"

declare findByMeta_loop.simps [code]

definition FindByMeta :: "'a heap \<Rightarrow> nat \<Rightarrow> 'a any \<Rightarrow> nat option option" where
  "FindByMeta h n meta = findByMeta_loop h meta (Nodes (h ! n))"

text \<open>\<open>FindByValue\<close> compares the children's values, and below them calls \<open>FindByMeta\<close>.\<close>

partial_function (option) findByValue_loop :: "'a heap \<Rightarrow> 'a any \<Rightarrow> nat list \<Rightarrow> nat option option" where
  "findByValue_loop h value ns =
     (case ns of
        [] \<Rightarrow> Some None
      | node # rest \<Rightarrow>
          (if Value (h ! node) = value then Some (Some node)
           else Option.bind (FindByMeta h node value)
                  (\<lambda>v. if v \<noteq> None then Some v else findByValue_loop h value rest)))"

declare findByValue_loop.simps [code]

definition FindByValue :: "'a heap \<Rightarrow> nat \<Rightarrow> 'a any \<Rightarrow> nat option option" where
  "FindByValue h n value = findByValue_loop h value (Nodes (h ! n))"

section \<open>Traversal\<close>

text \<open>
  \<open>VisitAll(fn)\<close>: the range loop runs over the slice \<open>n.Nodes\<close> as it was
  when the loop started; for each child it calls the visitor, then reads the
  child's \<open>Nodes\<close> (after the visitor ran) and descends. The visitor is a Go
  closure: here a function of the heap and of a state \<open>'s\<close> of the caller's
  (\<open>type NodeVisitor func(item *Node)\<close>).
\<close>

type_synonym ('a, 's) NodeVisitor = "nat \<Rightarrow> 'a heap \<times> 's \<Rightarrow> 'a heap \<times> 's"

partial_function (option) visitAll_loop ::
  "('a, 's) NodeVisitor \<Rightarrow> nat list \<Rightarrow> 'a heap \<times> 's \<Rightarrow> ('a heap \<times> 's) option" where
  "visitAll_loop fn ns st =
     (case ns of
        [] \<Rightarrow> Some st
      | node # rest \<Rightarrow>
          (let st1 = fn node st in
           Option.bind
             (if Nodes (fst st1 ! node) \<noteq> [] then visitAll_loop fn (Nodes (fst st1 ! node)) st1
              else Some st1)
             (\<lambda>st2. visitAll_loop fn rest st2)))"

declare visitAll_loop.simps [code]

definition VisitAll :: "('a, 's) NodeVisitor \<Rightarrow> nat \<Rightarrow> 'a heap \<times> 's \<Rightarrow> ('a heap \<times> 's) option" where
  "VisitAll fn n st = visitAll_loop fn (Nodes (fst st ! n)) st"

section \<open>Paths in the abstract trees\<close>

text \<open>\<open>follow h p path\<close>: the node reached from \<open>p\<close> by taking, at each
  step, the child at the index the path gives.\<close>

fun follow :: "'a heap \<Rightarrow> nat \<Rightarrow> nat list \<Rightarrow> nat" where
  "follow h p [] = p"
| "follow h p (i # is) = follow h (Nodes (h ! p) ! i) is"

text \<open>Pre-order paths of a forest whose first tree is at position \<open>i\<close>:
  each tree, then its descendants, then the next tree.\<close>

fun paths_from :: "nat \<Rightarrow> 'a tree list \<Rightarrow> nat list list" where
  "paths_from i [] = []"
| "paths_from i (Tr m v ks # ts) = [i] # map (Cons i) (paths_from 0 ks) @ paths_from (Suc i) ts"

fun subtree_in :: "'a tree list \<Rightarrow> nat list \<Rightarrow> 'a tree" where
  "subtree_in ts [] = Tr None None ts"
| "subtree_in ts [i] = ts ! i"
| "subtree_in ts (i # j # is) = subtree_in (tkids (ts ! i)) (j # is)"

text \<open>The first pre-order position in a forest whose metadata is \<open>m\<close>.\<close>

fun find_meta_path :: "'a any \<Rightarrow> nat \<Rightarrow> 'a tree list \<Rightarrow> nat list option" where
  "find_meta_path m i [] = None"
| "find_meta_path m i (Tr mt vt ks # ts) =
     (if mt = m then Some [i]
      else (case find_meta_path m 0 ks of
              Some p \<Rightarrow> Some (i # p)
            | None \<Rightarrow> find_meta_path m (Suc i) ts))"

text \<open>What \<open>FindByValue\<close> looks for in a forest: the first tree whose value is \<open>v\<close>,
  or, before the next tree, the first pre-order position below that tree whose metadata is \<open>v\<close>.\<close>

definition value_or_meta :: "'a any \<Rightarrow> 'a tree list \<Rightarrow> nat list \<Rightarrow> bool" where
  "value_or_meta v ts q = (if length q = 1 then tval (subtree_in ts q) = v else tmeta (subtree_in ts q) = v)"

fun find_value_meta_path :: "'a any \<Rightarrow> nat \<Rightarrow> 'a tree list \<Rightarrow> nat list option" where
  "find_value_meta_path v i [] = None"
| "find_value_meta_path v i (Tr mt vt ks # ts) =
     (if vt = v then Some [i]
      else (case find_meta_path v 0 ks of
              Some p \<Rightarrow> Some (i # p)
            | None \<Rightarrow> find_value_meta_path v (Suc i) ts))"

text \<open>A visitor that leaves every node's children as they are (it may change values and metadata).\<close>

definition keeps_links :: "(nat \<Rightarrow> 'a heap \<times> 's \<Rightarrow> 'a heap \<times> 's) \<Rightarrow> bool" where
  "keeps_links fn \<longleftrightarrow> (\<forall>q st. map Nodes (fst (fn q st)) = map Nodes (fst st))"

text \<open>A visitor that calls \<open>AddNode(a)\<close> on the node it visits.\<close>

definition add_child_visitor :: "'a any \<Rightarrow> nat \<Rightarrow> 'a heap \<times> 's \<Rightarrow> 'a heap \<times> 's" where
  "add_child_visitor a q st = (fst (AddNode (fst st) q a), snd st)"

text \<open>A visitor that calls \<open>SetValue(v)\<close> on the node it visits.\<close>

definition set_value_visitor :: "'a any \<Rightarrow> nat \<Rightarrow> 'a heap \<times> 's \<Rightarrow> 'a heap \<times> 's" where
  "set_value_visitor v q st = (SetValue (fst st) q v, snd st)"

section \<open>Example trees\<close>

text \<open>A branch \<open>A\<close> holding a node with metadata 7, before a leaf \<open>B\<close>
  with metadata 7; a branch \<open>A\<close> holding a node with metadata x and value y.\<close>

definition ex_meta :: "gval heap" where
  "ex_meta = fst (AddMetaNode (fst (AddMetaNode (fst (AddBranch (fst (New [])) 0 (Some (GStr ''A''))))
     1 (Some (GInt 7)) (Some (GStr ''y'')))) 0 (Some (GInt 7)) (Some (GStr ''B'')))"

definition ex_vmeta :: "gval heap" where
  "ex_vmeta = fst (AddMetaNode (fst (AddBranch (fst (New [])) 0 (Some (GStr ''A''))))
     1 (Some (GStr ''x'')) (Some (GStr ''y'')))"

section \<open>Lemmas\<close>

subsection \<open>Search and traversal against the abstraction\<close>

lemma follow_child: "Nodes (h ! n) = pre @ c # ns \<Longrightarrow> follow h n (length pre # path) = follow h c path"
  by simp

lemma findByMeta_loop_repr:
  assumes "repr h p t"
  shows "findByMeta_loop h m (Nodes (h ! p)) = Some (map_option (follow h p) (find_meta_path m 0 (tkids t)))"
  using assms
proof (induction arbitrary: m rule: repr.induct)
  case (repr_node n ts)
  have "findByMeta_loop h m ns = Some (map_option (follow h n) (find_meta_path m (length pre) ts'))"
    if "Nodes (h ! n) = pre @ ns"
      and "list_all2 (\<lambda>x y. repr h x y \<and> (\<forall>m. findByMeta_loop h m (Nodes (h ! x)) =
              Some (map_option (follow h x) (find_meta_path m 0 (tkids y))))) ns ts'"
    for pre ns ts'
    using that
  proof (induction ns arbitrary: pre ts')
    case Nil
    then show ?case by (simp add: findByMeta_loop.simps)
  next
    case (Cons c ns)
    from Cons.prems(2) obtain u us where ts': "ts' = u # us"
      and u: "repr h c u" and IHc: "\<And>m. findByMeta_loop h m (Nodes (h ! c)) =
              Some (map_option (follow h c) (find_meta_path m 0 (tkids u)))"
      and us: "list_all2 (\<lambda>x y. repr h x y \<and> (\<forall>m. findByMeta_loop h m (Nodes (h ! x)) =
              Some (map_option (follow h x) (find_meta_path m 0 (tkids y))))) ns us"
      by (auto simp: list_all2_Cons1)
    from Cons.prems(1) have rest: "Nodes (h ! n) = (pre @ [c]) @ ns" by simp
    note IHr = Cons.IH[OF rest us]
    obtain mt vt ks where uu: "u = Tr mt vt ks" by (cases u)
    with repr_D[OF u] have mt: "mt = Meta (h ! c)" by simp
    show ?case
      using Cons.prems(1) IHc[of m] IHr uu mt
      by (auto simp: ts' findByMeta_loop.simps[of h m "c # ns"] split: option.splits)
  qed
  from this[of "[]"] repr_node.IH show ?case by simp
qed

lemma find_map_Cons: "find P (map (Cons i) xs) = map_option (Cons i) (find (\<lambda>q. P (i # q)) xs)"
  by (induction xs) auto

lemma find_append: "find P (xs @ ys) = (case find P xs of None \<Rightarrow> find P ys | Some x \<Rightarrow> Some x)"
  by (induction xs) auto

lemma paths_from_not_Nil: "q \<in> set (paths_from i ts) \<Longrightarrow> q \<noteq> []"
  by (induction i ts rule: paths_from.induct) auto

lemma subtree_in_Cons: "q \<noteq> [] \<Longrightarrow> subtree_in ts (i # q) = subtree_in (tkids (ts ! i)) q"
  by (cases q) auto

lemma find_meta_path_first:
  "length pre = i \<Longrightarrow>
   find_meta_path m i ts = find (\<lambda>q. tmeta (subtree_in (pre @ ts) q) = m) (paths_from i ts)"
proof (induction i ts arbitrary: pre rule: paths_from.induct)
  case (1 i)
  then show ?case by simp
next
  case (2 i mt vt ks ts)
  let ?P = "\<lambda>q. tmeta (subtree_in (pre @ Tr mt vt ks # ts) q) = m"
  have kids: "find (\<lambda>q. ?P (i # q)) (paths_from 0 ks) = find_meta_path m 0 ks"
  proof -
    have "find (\<lambda>q. ?P (i # q)) (paths_from 0 ks) = find (\<lambda>q. tmeta (subtree_in ([] @ ks) q) = m) (paths_from 0 ks)"
      using 2(3) by (intro find_cong) (auto simp: subtree_in_Cons dest: paths_from_not_Nil)
    then show ?thesis using "2.IH"(1)[of "[]"] by simp
  qed
  have rest: "find ?P (paths_from (Suc i) ts) = find_meta_path m (Suc i) ts"
    using "2.IH"(2)[of "pre @ [Tr mt vt ks]"] 2(3) by simp
  show ?case
    using 2(3) kids rest by (auto simp: find_append find_map_Cons split: option.splits)
qed


lemma keeps_links_fold:
  "keeps_links fn \<Longrightarrow> map Nodes (fst (fold fn qs st)) = map Nodes (fst st)"
  by (induction qs arbitrary: st) (auto simp: keeps_links_def)

lemma Nodes_same_shape:
  "map Nodes h' = map Nodes h \<Longrightarrow> p < length h \<Longrightarrow> Nodes (h' ! p) = Nodes (h ! p)"
  by (metis length_map nth_map)

text \<open>The pre-order list of a node's descendants, child by child.\<close>

lemma paths_from_blocks:
  "Nodes (h ! n) = pre @ ns \<Longrightarrow> length ns = length ts \<Longrightarrow>
   map (follow h n) (paths_from (length pre) ts) =
   concat (map2 (\<lambda>c u. c # map (follow h c) (paths_from 0 (tkids u))) ns ts)"
proof (induction ns arbitrary: pre ts)
  case Nil
  then show ?case by simp
next
  case (Cons c ns)
  from Cons.prems(2) obtain u us where ts: "ts = u # us" by (cases ts) auto
  obtain mt vt ks where u: "u = Tr mt vt ks" by (cases u)
  from Cons.prems(1) have rest: "Nodes (h ! n) = (pre @ [c]) @ ns" by simp
  have fc: "follow h n \<circ> Cons (length pre) = follow h c"
    using Cons.prems(1) by (simp add: fun_eq_iff)
  show ?case
    using Cons.IH[OF rest] Cons.prems fc by (simp add: ts u)
qed

lemma preorder_blocks:
  "repr h n t \<Longrightarrow> map (follow h n) (paths_from 0 (tkids t)) =
     concat (map2 (\<lambda>c u. c # map (follow h c) (paths_from 0 (tkids u))) (Nodes (h ! n)) (tkids t))"
  using paths_from_blocks[of h n "[]" "Nodes (h ! n)" "tkids t"] repr_D(4)[of h n t] by (simp add: list_all2_lengthD)

text \<open>The recursive call of \<open>VisitAll\<close> on a child, which is skipped when the
  child has no children.\<close>

lemma visitAll_down:
  assumes u: "repr h c (Tr mt vt ks)" and n1: "Nodes (fst st1 ! c) = Nodes (h ! c)"
    and IHc: "visitAll_loop fn (Nodes (h ! c)) st1 = Some (fold fn (map (follow h c) (paths_from 0 ks)) st1)"
  shows "(if Nodes (fst st1 ! c) \<noteq> [] then visitAll_loop fn (Nodes (fst st1 ! c)) st1 else Some st1) =
         Some (fold fn (map (follow h c) (paths_from 0 ks)) st1)"
proof (cases "Nodes (h ! c) = []")
  case True
  with repr_D(4)[OF u] have "ks = []" by simp
  with True n1 show ?thesis by simp
next
  case False
  with n1 IHc show ?thesis by simp
qed

text \<open>The loop of \<open>VisitAll\<close> over a list of children folds the visitor over
  each child followed by its subtree.\<close>

lemma visitAll_loop_blocks:
  assumes fn: "keeps_links fn"
  shows "list_all2 (\<lambda>x y. repr h x y \<and> (\<forall>st. map Nodes (fst st) = map Nodes h \<longrightarrow>
            visitAll_loop fn (Nodes (h ! x)) st = Some (fold fn (map (follow h x) (paths_from 0 (tkids y))) st))) ns ts \<Longrightarrow>
   map Nodes (fst st) = map Nodes h \<Longrightarrow>
   visitAll_loop fn ns st = Some (fold fn (concat (map2 (\<lambda>c u. c # map (follow h c) (paths_from 0 (tkids u))) ns ts)) st)"
proof (induction arbitrary: st rule: list_all2_induct)
  case Nil
  then show ?case by (simp add: visitAll_loop.simps)
next
  case (Cons c cs u us)
  obtain mt vt ks where uu: "u = Tr mt vt ks" by (cases u)
  let ?st1 = "fn c st"
  have sh1: "map Nodes (fst ?st1) = map Nodes h" using fn Cons.prems unfolding keeps_links_def by metis
  have n1: "Nodes (fst ?st1 ! c) = Nodes (h ! c)"
    using Nodes_same_shape[OF sh1 repr_D(1)] Cons.hyps(1) by blast
  let ?st2 = "fold fn (map (follow h c) (paths_from 0 ks)) ?st1"
  have down: "(if Nodes (fst ?st1 ! c) \<noteq> [] then visitAll_loop fn (Nodes (fst ?st1 ! c)) ?st1 else Some ?st1)
              = Some ?st2"
  proof -
    have u: "repr h c (Tr mt vt ks)" using Cons.hyps(1) uu by simp
    have "visitAll_loop fn (Nodes (h ! c)) ?st1 = Some ?st2" using Cons.hyps(1) sh1 unfolding uu tree.sel by blast
    from visitAll_down[OF u n1 this] show ?thesis .
  qed
  have sh2: "map Nodes (fst ?st2) = map Nodes h" using keeps_links_fold[OF fn] sh1 by simp
  have "visitAll_loop fn (c # cs) st = visitAll_loop fn cs ?st2"
    using down by (simp add: visitAll_loop.simps[of fn "c # cs"] Let_def)
  with Cons.IH[OF sh2] uu show ?case by simp
qed

lemma visitAll_loop_repr:
  assumes "repr h p t" and fn: "keeps_links fn"
  shows "map Nodes (fst st) = map Nodes h \<Longrightarrow>
    visitAll_loop fn (Nodes (h ! p)) st = Some (fold fn (map (follow h p) (paths_from 0 (tkids t))) st)"
  using assms(1)
proof (induction arbitrary: st rule: repr.induct)
  case (repr_node n ts)
  have "repr h n (Tr (Meta (h ! n)) (Value (h ! n)) ts)"
    using repr_node.hyps(1) repr_node.IH by (auto intro!: repr.repr_node elim: list_all2_mono)
  from visitAll_loop_blocks[OF fn repr_node.IH repr_node.prems] preorder_blocks[OF this] show ?case by simp
qed

lemma ex_meta_eval: "ex_meta = [\<lparr>Root = None, Meta = None, Value = Some (GStr ''.''), Nodes = [1, 3]\<rparr>,
   \<lparr>Root = Some 0, Meta = None, Value = Some (GStr ''A''), Nodes = [2]\<rparr>,
   \<lparr>Root = Some 1, Meta = Some (GInt 7), Value = Some (GStr ''y''), Nodes = []\<rparr>,
   \<lparr>Root = Some 0, Meta = Some (GInt 7), Value = Some (GStr ''B''), Nodes = []\<rparr>]"
  by (simp add: ex_meta_def New_def NewWithRoot_def AddMetaNode_def AddBranch_def alloc_def append_child_def)

subsection \<open>Paths\<close>

lemma FindByMeta_repr:
  "repr h p t \<Longrightarrow> FindByMeta h p m = Some (map_option (follow h p) (find_meta_path m 0 (tkids t)))"
  by (simp add: FindByMeta_def findByMeta_loop_repr)

lemma paths_from_memberD:
  "q \<in> set (paths_from i ts) \<Longrightarrow>
   \<exists>j q'. q = (i + j) # q' \<and> j < length ts \<and> (q' = [] \<or> q' \<in> set (paths_from 0 (tkids (ts ! j))))"
proof (induction i ts rule: paths_from.induct)
  case (1 i)
  then show ?case by simp
next
  case (2 i m v ks ts)
  show ?case
  proof (cases "q \<in> set (paths_from (Suc i) ts)")
    case True
    from "2.IH"(2)[OF True] obtain j q' where "q = (Suc i + j) # q'" "j < length ts"
      "q' = [] \<or> q' \<in> set (paths_from 0 (tkids (ts ! j)))" by blast
    then show ?thesis by (intro exI[of _ "Suc j"] exI[of _ q']) simp
  next
    case False
    with "2.prems" show ?thesis by auto
  qed
qed

lemma repr_follow:
  "list_all2 (repr h) (Nodes (h ! p)) ts \<Longrightarrow> q \<in> set (paths_from 0 ts) \<Longrightarrow>
   repr h (follow h p q) (subtree_in ts q)"
proof (induction q arbitrary: p ts)
  case Nil
  then show ?case using paths_from_not_Nil by blast
next
  case (Cons j q')
  from paths_from_memberD[OF Cons.prems(2)] have j: "j < length ts"
    and q': "q' = [] \<or> q' \<in> set (paths_from 0 (tkids (ts ! j)))" by auto
  from Cons.prems(1) j have c: "repr h (Nodes (h ! p) ! j) (ts ! j)"
    by (simp add: list_all2_conv_all_nth)
  show ?case
  proof (cases "q' = []")
    case True
    with c show ?thesis by simp
  next
    case False
    with q' have "q' \<in> set (paths_from 0 (tkids (ts ! j)))" by simp
    from Cons.IH[OF repr_D(4)[OF c] this] False show ?thesis by (simp add: subtree_in_Cons)
  qed
qed

text \<open>The metadata at the end of a path is the metadata of the node it leads to.\<close>

lemma meta_follow:
  "repr h p t \<Longrightarrow> path \<in> set (paths_from 0 (tkids t)) \<Longrightarrow>
   tmeta (subtree_in (tkids t) path) = Meta (h ! follow h p path)"
  using repr_follow[OF repr_D(4)] repr_D(2) by metis

lemma FindByMeta_path:
  assumes "repr h p t" "FindByMeta h p m = Some (Some q)"
  shows "\<exists>path \<in> set (paths_from 0 (tkids t)). q = follow h p path \<and> tmeta (subtree_in (tkids t) path) = m"
proof -
  from assms findByMeta_loop_repr[OF assms(1), of m] obtain path where
    path: "find_meta_path m 0 (tkids t) = Some path" and q: "q = follow h p path"
    by (auto simp: FindByMeta_def)
  from path find_meta_path_first[of "[]" 0 m "tkids t"] q show ?thesis
    by (auto simp: find_Some_iff)
qed

lemma FindByMeta_sound:
  assumes "repr h p t" "FindByMeta h p m = Some (Some q)"
  shows "Meta (h ! q) = m"
proof -
  from FindByMeta_path[OF assms] obtain path where mem: "path \<in> set (paths_from 0 (tkids t))"
    and q: "q = follow h p path" and mt: "tmeta (subtree_in (tkids t) path) = m" by blast
  from meta_follow[OF assms(1) mem] q mt show ?thesis by simp
qed

lemma follow_desc:
  "list_all2 (repr h) (Nodes (h ! p)) ts \<Longrightarrow> p < length h \<Longrightarrow> q \<in> set (paths_from 0 ts) \<Longrightarrow>
   desc h p (follow h p q)"
proof (induction q arbitrary: p ts)
  case Nil
  then show ?case using paths_from_not_Nil by blast
next
  case (Cons j q')
  from paths_from_memberD[OF Cons.prems(3)] have j: "j < length ts"
    and q': "q' = [] \<or> q' \<in> set (paths_from 0 (tkids (ts ! j)))" by auto
  let ?c = "Nodes (h ! p) ! j"
  from Cons.prems(1) j have c: "repr h ?c (ts ! j)" and jn: "j < length (Nodes (h ! p))"
    by (simp_all add: list_all2_conv_all_nth)
  have d: "desc h p ?c" using Cons.prems(2) jn by (auto intro: desc_child)
  show ?case
  proof (cases "q' = []")
    case True
    with d show ?thesis by simp
  next
    case False
    with q' have "q' \<in> set (paths_from 0 (tkids (ts ! j)))" by simp
    from Cons.IH[OF repr_D(4)[OF c] repr_D(1)[OF c] this] d show ?thesis by (simp add: desc_trans)
  qed
qed

lemma FindByMeta_desc:
  assumes "repr h p t" "FindByMeta h p m = Some (Some q)"
  shows "desc h p q"
proof -
  from FindByMeta_path[OF assms] obtain path where mem: "path \<in> set (paths_from 0 (tkids t))"
    and q: "q = follow h p path" by blast
  from follow_desc[OF repr_D(4)[OF assms(1)] repr_D(1)[OF assms(1)] mem] q show ?thesis by simp
qed

lemma findByValue_loop_sound:
  assumes "\<forall>c \<in> set ns. \<exists>u. repr h c u"
  shows "\<exists>r. findByValue_loop h v ns = Some r \<and>
    (\<forall>q. r = Some q \<longrightarrow> ((q \<in> set ns \<and> Value (h ! q) = v) \<or> Meta (h ! q) = v) \<and>
       (\<exists>c \<in> set ns. c = q \<or> desc h c q))"
  using assms
proof (induction ns)
  case Nil
  then show ?case by (simp add: findByValue_loop.simps)
next
  case (Cons c ns)
  from Cons.prems obtain u where u: "repr h c u" by auto
  from Cons.IH Cons.prems obtain r where r: "findByValue_loop h v ns = Some r"
    and rs: "\<forall>q. r = Some q \<longrightarrow> ((q \<in> set ns \<and> Value (h ! q) = v) \<or> Meta (h ! q) = v) \<and>
       (\<exists>c \<in> set ns. c = q \<or> desc h c q)" by auto
  from FindByMeta_repr[OF u, of v] obtain r' where r': "FindByMeta h c v = Some r'" by blast
  have r's: "Meta (h ! q) = v \<and> desc h c q" if "r' = Some q" for q
    using FindByMeta_sound[OF u] FindByMeta_desc[OF u] r' that by simp
  show ?case using r rs r' r's by (auto simp: findByValue_loop.simps[of h v "c # ns"])
qed

subsection \<open>Visiting every descendant\<close>

text \<open>The pre-order list holds exactly the descendants.\<close>

lemma preorder_set:
  "repr h p t \<Longrightarrow> set (map (follow h p) (paths_from 0 (tkids t))) = {q. desc h p q}"
proof (induction rule: repr.induct)
  case (repr_node n ts)
  let ?F = "\<lambda>c u. map (follow h c) (paths_from 0 (tkids u))"
  have IH: "list_all2 (\<lambda>c u. set (?F c u) = {q. desc h c q}) (Nodes (h ! n)) ts"
    using repr_node.IH by (rule list_all2_mono) simp
  have "list_all2 (repr h) (Nodes (h ! n)) ts"
    using repr_node.IH by (rule list_all2_mono) simp
  with repr_node.hyps(1) have "repr h n (Tr (Meta (h ! n)) (Value (h ! n)) ts)" by (rule repr.repr_node)
  from preorder_blocks[OF this] set_concat_map2[OF IH]
  have "set (map (follow h n) (paths_from 0 ts)) = (\<Union>c \<in> set (Nodes (h ! n)). insert c {q. desc h c q})"
    by simp
  also have "\<dots> = {q. desc h n q}"
    using repr_node.hyps(1) by (auto simp: desc_first[of h n])
  finally show ?case by simp
qed

text \<open>On a tree-shaped heap every descendant occurs once in the pre-order list.\<close>

lemma preorder_distinct:
  assumes wf: "wf_heap h" and ow: "owned h"
  shows "repr h p t \<Longrightarrow> distinct (map (follow h p) (paths_from 0 (tkids t)))"
proof (induction rule: repr.induct)
  case (repr_node n ts)
  let ?F = "\<lambda>c u. map (follow h c) (paths_from 0 (tkids u))"
  have "list_all2 (\<lambda>c u. distinct (?F c u) \<and> c \<notin> set (?F c u) \<and> set (?F c u) = {q. desc h c q})
          (Nodes (h ! n)) ts"
    using repr_node.IH
  proof (rule list_all2_mono)
    fix c u assume cu: "repr h c u \<and> distinct (?F c u)"
    then have e: "set (?F c u) = {q. desc h c q}" using preorder_set[of h c u] by blast
    with cu desc_wf[OF wf, of c c]
    show "distinct (?F c u) \<and> c \<notin> set (?F c u) \<and> set (?F c u) = {q. desc h c q}" by auto
  qed
  moreover have "distinct (Nodes (h ! n))" using wf_heapD(1)[OF wf repr_node.hyps(1)] .
  moreover have "insert c {q. desc h c q} \<inter> insert c' {q. desc h c' q} = {}"
    if "c \<in> set (Nodes (h ! n))" "c' \<in> set (Nodes (h ! n))" "c \<noteq> c'" for c c'
    using that sibling_not_desc[OF wf ow repr_node.hyps(1)]
      siblings_disjoint[OF wf ow repr_node.hyps(1) that(2) _ that(1,3)] by blast
  ultimately have "distinct (concat (map2 (\<lambda>c u. c # ?F c u) (Nodes (h ! n)) ts))"
    by (rule distinct_concat_map2)
  moreover have "list_all2 (repr h) (Nodes (h ! n)) ts"
    using repr_node.IH by (rule list_all2_mono) simp
  ultimately show ?case
    using preorder_blocks[OF repr.repr_node[OF repr_node.hyps(1)]] by simp
qed

lemma length_paths_from: "length (paths_from i ts) = length (paths_from j ts)"
proof (induction ts arbitrary: i j)
  case (Cons t ts)
  then show ?case by (cases t) simp
qed simp

lemma card_desc:
  assumes "wf_heap h" "owned h" "repr h p t"
  shows "card {q. desc h p q} = length (paths_from 0 (tkids t))"
  using distinct_card[OF preorder_distinct[OF assms]] preorder_set[OF assms(3)] by simp

subsection \<open>Search\<close>

text \<open>C12: FindByMeta(meta), called on a node that denotes the tree t, terminates and returns the node at the first position of the pre-order walk of t's descendants whose metadata equals meta (Go reflect.DeepEqual, here equality of interface values), and nil when there is none.\<close>

theorem FindByMeta_first_preorder:
  assumes "repr h p t"
  shows "FindByMeta h p m =
    Some (map_option (follow h p) (find (\<lambda>q. tmeta (subtree_in (tkids t) q) = m) (paths_from 0 (tkids t))))"
  using findByMeta_loop_repr[OF assms, of m] find_meta_path_first[of "[]" 0 m "tkids t"]
  by (simp add: FindByMeta_def)

theorem FindByMeta_first_preorder_witness:
  "repr ex_meta 0 (Tr None (Some (GStr ''.'')) [Tr None (Some (GStr ''A'')) [Tr (Some (GInt 7)) (Some (GStr ''y'')) []], Tr (Some (GInt 7)) (Some (GStr ''B'')) []])
   \<and> FindByMeta ex_meta 0 (Some (GInt 7)) = Some (Some 2)"
proof -
  have r: "repr ex_meta 0 (Tr None (Some (GStr ''.'')) [Tr None (Some (GStr ''A'')) [Tr (Some (GInt 7)) (Some (GStr ''y'')) []], Tr (Some (GInt 7)) (Some (GStr ''B'')) []])"
    by (simp add: ex_meta_eval repr_Tr)
  show ?thesis using r FindByMeta_first_preorder[OF r, of "Some (GInt 7)"] by (simp add: ex_meta_eval)
qed

text \<open>C14: FindByMeta returns nil exactly when no node below the receiver has the metadata searched for: on a well-formed heap it terminates, and its result is nil if and only if every descendant's metadata differs from the argument, so a match anywhere in the subtree is found.\<close>

theorem FindByMeta_complete:
  assumes "wf_heap h" "p < length h"
  shows "\<exists>r. FindByMeta h p m = Some r \<and> (r = None \<longleftrightarrow> (\<forall>q. desc h p q \<longrightarrow> Meta (h ! q) \<noteq> m))"
proof -
  from repr_exists[OF assms] obtain t where t: "repr h p t" by blast
  let ?P = "\<lambda>q. tmeta (subtree_in (tkids t) q) = m"
  have f: "FindByMeta h p m = Some (map_option (follow h p) (find ?P (paths_from 0 (tkids t))))"
    using FindByMeta_repr[OF t, of m] find_meta_path_first[of "[]" 0 m "tkids t"] by simp
  have "find ?P (paths_from 0 (tkids t)) = None \<longleftrightarrow> (\<forall>path \<in> set (paths_from 0 (tkids t)). Meta (h ! follow h p path) \<noteq> m)"
    using meta_follow[OF t] by (auto simp: find_None_iff)
  also have "\<dots> \<longleftrightarrow> (\<forall>q \<in> set (map (follow h p) (paths_from 0 (tkids t))). Meta (h ! q) \<noteq> m)"
    by simp
  also have "\<dots> \<longleftrightarrow> (\<forall>q. desc h p q \<longrightarrow> Meta (h ! q) \<noteq> m)"
    unfolding preorder_set[OF t] by simp
  finally show ?thesis using f by simp
qed

theorem FindByMeta_complete_witness:
  "FindByMeta ex_meta 0 (Some (GInt 8)) = Some None \<and> FindByMeta ex_meta 0 (Some (GInt 7)) \<noteq> Some None"
proof -
  have wf: "wf_heap ex_meta" by (simp add: ex_meta_eval wf_heap_def less_Suc_eq)
  have z: "(0::nat) < length ex_meta" by (simp add: ex_meta_eval)
  have m8: "Meta (ex_meta ! q) \<noteq> Some (GInt 8)" if "desc ex_meta 0 q" for q
  proof -
    from desc_wf[OF wf that] have "q < 4" by (simp add: ex_meta_eval)
    then have "q = 0 \<or> q = 1 \<or> q = 2 \<or> q = 3" by arith
    then show ?thesis by (auto simp: ex_meta_eval)
  qed
  have d2: "desc ex_meta 0 3 \<and> Meta (ex_meta ! 3) = Some (GInt 7)"
    by (auto simp: ex_meta_eval intro: desc_child)
  from FindByMeta_complete[OF wf z, of "Some (GInt 8)"] m8
  have a: "FindByMeta ex_meta 0 (Some (GInt 8)) = Some None" by auto
  from FindByMeta_complete[OF wf z, of "Some (GInt 7)"] d2
  have b: "FindByMeta ex_meta 0 (Some (GInt 7)) \<noteq> Some None" by auto
  from a b show ?thesis by blast
qed

text \<open>On a well-formed heap the searches and the traversal terminate from every node.\<close>

lemma FindByMeta_terminates:
  assumes "wf_heap h" "p < length h"
  shows "\<exists>r. FindByMeta h p m = Some r"
proof -
  from repr_exists[OF assms] obtain t where "repr h p t" by blast
  from FindByMeta_repr[OF this] show ?thesis by blast
qed

lemma FindByValue_terminates:
  assumes "wf_heap h" "p < length h"
  shows "\<exists>r. FindByValue h p v = Some r"
proof -
  have "\<forall>c \<in> set (Nodes (h ! p)). \<exists>u. repr h c u"
    using assms wf_heapD(2)[OF assms] repr_exists by blast
  from findByValue_loop_sound[OF this] show ?thesis unfolding FindByValue_def by blast
qed

lemma VisitAll_terminates:
  assumes "wf_heap h" "p < length h" "keeps_links fn"
  shows "\<exists>st. VisitAll fn p (h, s) = Some st"
proof -
  from repr_exists[OF assms(1,2)] obtain t where "repr h p t" by blast
  from visitAll_loop_repr[OF this assms(3), of "(h, s)"] show ?thesis by (simp add: VisitAll_def)
qed


lemma findByValue_loop_repr:
  "list_all2 (repr h) ns ts \<Longrightarrow> Nodes (h ! p) = pre @ ns \<Longrightarrow>
   findByValue_loop h v ns = Some (map_option (follow h p) (find_value_meta_path v (length pre) ts))"
proof (induction ns arbitrary: pre ts)
  case Nil
  then show ?case by (simp add: findByValue_loop.simps)
next
  case (Cons c ns)
  from Cons.prems(1) obtain u us where ts: "ts = u # us" and u: "repr h c u"
    and us: "list_all2 (repr h) ns us" by (auto simp: list_all2_Cons1)
  obtain mt vt ks where uu: "u = Tr mt vt ks" by (cases u)
  with repr_D[OF u] have vt: "vt = Value (h ! c)" by simp
  from Cons.prems(2) have "Nodes (h ! p) = (pre @ [c]) @ ns" by simp
  note IHr = Cons.IH[OF us this]
  from Cons.prems(2) have "Nodes (h ! p) ! length pre = c" by simp
  then show ?case
    using FindByMeta_repr[OF u, of v] IHr uu vt follow_child[OF Cons.prems(2)]
    by (auto simp: ts findByValue_loop.simps[of h v "c # ns"] split: option.splits)
qed

lemma find_value_meta_path_first:
  "length pre = i \<Longrightarrow> find_value_meta_path v i ts = find (value_or_meta v (pre @ ts)) (paths_from i ts)"
proof (induction i ts arbitrary: pre rule: paths_from.induct)
  case (1 i)
  then show ?case by simp
next
  case (2 i mt vt ks ts)
  let ?P = "value_or_meta v (pre @ Tr mt vt ks # ts)"
  have top: "?P [i] = (vt = v)"
    using 2(3)[symmetric] by (simp add: value_or_meta_def)
  have kids: "find (\<lambda>q. ?P (i # q)) (paths_from 0 ks) = find_meta_path v 0 ks"
  proof -
    have "find (\<lambda>q. ?P (i # q)) (paths_from 0 ks) = find (\<lambda>q. tmeta (subtree_in ([] @ ks) q) = v) (paths_from 0 ks)"
      using 2(3) by (intro find_cong) (auto simp: value_or_meta_def subtree_in_Cons dest: paths_from_not_Nil)
    then show ?thesis using find_meta_path_first[of "[]" 0 v ks] by simp
  qed
  have rest: "find ?P (paths_from (Suc i) ts) = find_value_meta_path v (Suc i) ts"
    using "2.IH"[of "pre @ [Tr mt vt ks]"] 2(3) by simp
  show ?case
    using top kids rest by (auto simp: find_append find_map_Cons split: option.splits)
qed

text \<open>C13: FindByValue(value), called on a node that denotes the tree t, terminates and returns the first node, in the pre-order walk of t's descendants, that is either a child of the receiver whose value equals value or a node below the children whose metadata equals value, and nil when there is none: below the first level it compares metadata, because the loop calls node.FindByMeta(value).\<close>

theorem FindByValue_first_preorder:
  assumes "repr h p t"
  shows "FindByValue h p v =
    Some (map_option (follow h p) (find (value_or_meta v (tkids t)) (paths_from 0 (tkids t))))"
  using findByValue_loop_repr[OF repr_D(4)[OF assms], where pre="[]" and v=v]
    find_value_meta_path_first[where pre="[]" and i=0 and v=v and ts="tkids t"]
  by (simp add: FindByValue_def)

theorem FindByValue_first_preorder_witness:
  "repr ex_vmeta 0 (Tr None (Some (GStr ''.'')) [Tr None (Some (GStr ''A'')) [Tr (Some (GStr ''x'')) (Some (GStr ''y'')) []]])
   \<and> FindByValue ex_vmeta 0 (Some (GStr ''x'')) = Some (Some 2) \<and> Value (ex_vmeta ! 2) = Some (GStr ''y'')"
proof -
  have e: "ex_vmeta = [\<lparr>Root = None, Meta = None, Value = Some (GStr ''.''), Nodes = [1]\<rparr>,
      \<lparr>Root = Some 0, Meta = None, Value = Some (GStr ''A''), Nodes = [2]\<rparr>,
      \<lparr>Root = Some 1, Meta = Some (GStr ''x''), Value = Some (GStr ''y''), Nodes = []\<rparr>]"
    by (simp add: ex_vmeta_def New_def NewWithRoot_def AddMetaNode_def AddBranch_def alloc_def append_child_def)
  have r: "repr ex_vmeta 0 (Tr None (Some (GStr ''.'')) [Tr None (Some (GStr ''A'')) [Tr (Some (GStr ''x'')) (Some (GStr ''y'')) []]])"
    by (simp add: e repr_Tr)
  show ?thesis using r FindByValue_first_preorder[OF r, of "Some (GStr ''x'')"] by (simp add: e value_or_meta_def)
qed

lemma find_meta_path_append:
  "find_meta_path m i (xs @ ys) =
     (case find_meta_path m i xs of None \<Rightarrow> find_meta_path m (i + length xs) ys | Some p \<Rightarrow> Some p)"
  by (induction m i xs rule: find_meta_path.induct) (auto split: option.split)

text \<open>C24: A node that AddMetaBranch(meta, v) adds is found again by FindByMeta(meta) on the receiver, whenever FindByMeta(meta) found nothing there before: on every well-formed heap, FindByMeta returns exactly the node AddMetaBranch returned.\<close>

theorem AddMetaBranch_FindByMeta:
  assumes wf: "wf_heap h" and n: "n < length h" and miss: "FindByMeta h n m = Some None"
  shows "FindByMeta (fst (AddMetaBranch h n m a)) n m = Some (Some (snd (AddMetaBranch h n m a)))"
proof -
  from repr_exists[OF wf n] obtain t where t: "repr h n t" by blast
  obtain mt v ks where tt: "t = Tr mt v ks" by (cases t)
  from FindByMeta_repr[OF t, of m] miss tt have none: "find_meta_path m 0 ks = None" by simp
  from repr_D(4)[OF t] tt have len: "length (Nodes (h ! n)) = length ks" by (simp add: list_all2_lengthD)
  let ?h = "child_heap h n m a"
  from FindByMeta_repr[OF repr_child_heap[OF wf t[unfolded tt], of m a], of m]
  have "FindByMeta ?h n m = Some (map_option (follow ?h n) (find_meta_path m 0 (ks @ [Tr m a []])))"
    by simp
  moreover have "find_meta_path m 0 (ks @ [Tr m a []]) = Some [length ks]"
    using none by (simp add: find_meta_path_append)
  moreover have "follow ?h n [length ks] = length h"
    using n len[symmetric] by (simp add: Nodes_child_heap)
  ultimately show ?thesis by (simp add: AddMetaBranch_eq)
qed

theorem AddMetaBranch_FindByMeta_witness:
  "FindByMeta (fst (AddMetaBranch ex_tree 1 (Some (GInt 5)) (Some (GStr ''z'')))) 1 (Some (GInt 5)) = Some (Some 4)"
proof -
  have pre: "(1::nat) < length ex_tree" "FindByMeta ex_tree 1 (Some (GInt 5)) = Some None"
    by (simp_all add: ex_tree_eval FindByMeta_def findByMeta_loop.simps)
  from AddMetaBranch_FindByMeta[OF wf_ex_tree pre, of "Some (GStr ''z'')"] show ?thesis
    by (simp add: AddMetaBranch_eq ex_tree_eval)
qed

subsection \<open>Traversal\<close>

text \<open>C15: VisitAll with a visitor that keeps every node's children calls the visitor on each descendant once, in pre-order (each child, then its whole subtree, then the next child): the result is the visitor folded over the pre-order list. It is not a breadth-first walk.\<close>

theorem VisitAll_preorder:
  assumes "repr h p t" "keeps_links fn"
  shows "VisitAll fn p (h, s) = Some (fold fn (map (follow h p) (paths_from 0 (tkids t))) (h, s))"
  using visitAll_loop_repr[OF assms, of "(h, s)"] by (simp add: VisitAll_def)

theorem VisitAll_preorder_witness:
  "VisitAll (\<lambda>q st. (fst st, snd st @ [q])) 0 (ex_tree, []) = Some (ex_tree, [1, 2, 3])"
proof -
  have r: "repr ex_tree 0 (Tr None (Some (GStr ''.'')) [Tr None (Some (GStr ''A'')) [Tr None (Some (GStr ''x'')) []], Tr None (Some (GStr ''B'')) []])"
    by (simp add: ex_tree_eval repr_Tr)
  have k: "keeps_links (\<lambda>q (st :: gval heap \<times> nat list). (fst st, snd st @ [q]))"
    by (simp add: keeps_links_def)
  show ?thesis using VisitAll_preorder[OF r k, of "[]"] by (simp add: ex_tree_eval)
qed


text \<open>VisitAll reads a child's children after the visitor has run on it, so a
  visitor that adds a child to every node it visits is handed that child next.\<close>

lemma visitAll_loop_add_child_diverges:
  assumes "visitAll_loop fn ns st = Some r"
  shows "fn = add_child_visitor a \<longrightarrow> ns \<noteq> [] \<longrightarrow> wf_heap (fst st) \<longrightarrow>
   (\<forall>x \<in> set ns. x < length (fst st)) \<longrightarrow> False"
  apply (rule visitAll_loop.raw_induct[where P = "\<lambda>fn ns st r. fn = add_child_visitor a \<longrightarrow> ns \<noteq> [] \<longrightarrow>
   wf_heap (fst st) \<longrightarrow> (\<forall>x \<in> set ns. x < length (fst st)) \<longrightarrow> False", OF _ assms])
  subgoal premises prems for S fn ns st r
  proof (intro impI)
    assume f: "fn = add_child_visitor a" and ne0: "ns \<noteq> []" and wf: "wf_heap (fst st)"
      and rg: "\<forall>x \<in> set ns. x < length (fst st)"
    from ne0 obtain x rest where ns: "ns = x # rest" by (cases ns) auto
    let ?st1 = "add_child_visitor a x st"
    have x: "x < length (fst st)" using rg ns by simp
    have wf1: "wf_heap (fst ?st1)"
      using wf_heap_child_heap[OF wf x] by (simp add: add_child_visitor_def AddNode_eq)
    have ne: "Nodes (fst ?st1 ! x) \<noteq> []"
      using x by (simp add: add_child_visitor_def AddNode_eq Nodes_child_heap)
    have x1: "x < length (fst ?st1)" using x by (simp add: add_child_visitor_def AddNode_eq)
    have rng: "\<forall>y \<in> set (Nodes (fst ?st1 ! x)). y < length (fst ?st1)"
      using wf_heapD(2)[OF wf1 x1] by blast
    have "Option.bind (S fn (Nodes (fst ?st1 ! x)) ?st1) (S fn rest) = Some r"
      using prems(2) f ns ne by (simp add: Let_def)
    then obtain r2 where "S fn (Nodes (fst ?st1 ! x)) ?st1 = Some r2"
      by (cases "S fn (Nodes (fst ?st1 ! x)) ?st1") simp_all
    from prems(1)[OF this] f ne wf1 rng show False by blast
  qed
  done
text \<open>C16: VisitAll reaches every node below the receiver, and reaches it once: on a well-formed heap in which every node has at most one parent, with a visitor that keeps every node's children, VisitAll returns, and the visitor has been applied exactly to the descendants of the receiver, each of them once.\<close>

theorem VisitAll_visits_every_descendant:
  assumes wf: "wf_heap h" and ow: "owned h" and p: "p < length h" and fn: "keeps_links fn"
  shows "\<exists>qs. distinct qs \<and> set qs = {q. desc h p q} \<and> VisitAll fn p (h, s) = Some (fold fn qs (h, s))"
proof -
  from repr_exists[OF wf p] obtain t where t: "repr h p t" by blast
  from visitAll_loop_repr[OF t fn, of "(h, s)"] preorder_distinct[OF wf ow t] preorder_set[OF t]
  show ?thesis by (auto simp: VisitAll_def)
qed

theorem VisitAll_visits_every_descendant_witness:
  "\<exists>qs. distinct qs \<and> set qs = {q. desc ex_tree 0 q} \<and>
     VisitAll (\<lambda>q (st :: gval heap \<times> nat list). (fst st, snd st @ [q])) 0 (ex_tree, []) =
       Some (fold (\<lambda>q (st :: gval heap \<times> nat list). (fst st, snd st @ [q])) qs (ex_tree, []))"
proof -
  have o: "owned ex_tree" by (simp add: ex_tree_eval owned_def less_Suc_eq)
  have z: "(0::nat) < length ex_tree" by (simp add: ex_tree_eval)
  have k: "keeps_links (\<lambda>q (st :: gval heap \<times> nat list). (fst st, snd st @ [q]))"
    by (simp add: keeps_links_def)
  from VisitAll_visits_every_descendant[OF wf_ex_tree o z k, of "[]"] show ?thesis .
qed

lemma map_Nodes_update_Value: "map Nodes (h[q := (h ! q)\<lparr>Value := v\<rparr>]) = map Nodes h"
  by (cases "q < length h") (simp_all add: map_update list_update_beyond, metis list_update_id nth_map)

lemma keeps_links_set_value: "keeps_links (set_value_visitor v)"
  by (simp add: keeps_links_def set_value_visitor_def SetValue_def map_Nodes_update_Value)

lemma fold_set_value:
  "snd (fold (set_value_visitor v) qs (h, s)) = s \<and> length (fst (fold (set_value_visitor v) qs (h, s))) = length h \<and>
   (\<forall>p < length h. fst (fold (set_value_visitor v) qs (h, s)) ! p = (if p \<in> set qs then (h ! p)\<lparr>Value := v\<rparr> else h ! p))"
proof (induction qs arbitrary: h)
  case (Cons q qs)
  have "fold (set_value_visitor v) (q # qs) (h, s) = fold (set_value_visitor v) qs (SetValue h q v, s)"
    by (simp add: set_value_visitor_def)
  with Cons[of "SetValue h q v"] show ?case
    by (cases "q < length h") (auto simp: SetValue_def nth_list_update list_update_beyond)
qed simp

text \<open>C25: VisitAll with a visitor that calls SetValue(v) on each node it visits returns, and afterwards exactly the nodes below the receiver hold the value v, every other field and every other node being as before, on every well-formed heap.\<close>

theorem VisitAll_SetValue:
  assumes wf: "wf_heap h" and n: "n < length h"
  shows "\<exists>h'. VisitAll (set_value_visitor v) n (h, s) = Some (h', s) \<and> length h' = length h \<and>
    (\<forall>q < length h. h' ! q = (if desc h n q then (h ! q)\<lparr>Value := v\<rparr> else h ! q))"
proof -
  from repr_exists[OF wf n] obtain t where t: "repr h n t" by blast
  let ?qs = "map (follow h n) (paths_from 0 (tkids t))"
  have "VisitAll (set_value_visitor v) n (h, s) = Some (fold (set_value_visitor v) ?qs (h, s))"
    using visitAll_loop_repr[OF t keeps_links_set_value, of "(h, s)"] by (simp add: VisitAll_def)
  with fold_set_value[of v ?qs h s] preorder_set[OF t] show ?thesis
    by (intro exI[of _ "fst (fold (set_value_visitor v) ?qs (h, s))"]) (auto simp: prod_eq_iff)
qed

theorem VisitAll_SetValue_witness:
  "VisitAll (set_value_visitor (Some (GStr ''v''))) 1 (ex_tree, ()) =
     Some (ex_tree[2 := (ex_tree ! 2)\<lparr>Value := Some (GStr ''v'')\<rparr>], ())"
proof -
  have z: "(1::nat) < length ex_tree" by (simp add: ex_tree_eval)
  from VisitAll_SetValue[OF wf_ex_tree z, of "Some (GStr ''v'')" "()"] obtain h' where
    h': "VisitAll (set_value_visitor (Some (GStr ''v''))) 1 (ex_tree, ()) = Some (h', ())"
      "length h' = length ex_tree"
      "\<forall>q < length ex_tree. h' ! q = (if desc ex_tree 1 q then (ex_tree ! q)\<lparr>Value := Some (GStr ''v'')\<rparr> else ex_tree ! q)"
    by blast
  have r: "repr ex_tree 1 (Tr None (Some (GStr ''A'')) [Tr None (Some (GStr ''x'')) []])"
    by (simp add: ex_tree_eval repr_Tr)
  have d: "desc ex_tree 1 q \<longleftrightarrow> q = 2" for q
    using preorder_set[OF r] by (auto simp: ex_tree_eval)
  have "h' = ex_tree[2 := (ex_tree ! 2)\<lparr>Value := Some (GStr ''v'')\<rparr>]"
    using h'(2,3) d by (intro nth_equalityI) (auto simp: ex_tree_eval nth_list_update less_Suc_eq)
  with h'(1) show ?thesis by simp
qed

text \<open>C22: VisitAll never returns when the visitor adds a child to each node it visits: the loop reads node.Nodes after calling fn, so every new child is visited and given a child in turn, on every well-formed heap and from every node that has a child.\<close>

theorem VisitAll_add_child_diverges:
  assumes "wf_heap h" "p < length h" "Nodes (h ! p) \<noteq> []"
  shows "VisitAll (add_child_visitor a) p (h, s) = None"
proof (rule ccontr)
  assume "VisitAll (add_child_visitor a) p (h, s) \<noteq> None"
  then obtain r where "visitAll_loop (add_child_visitor a) (Nodes (h ! p)) (h, s) = Some r"
    by (auto simp: VisitAll_def)
  from visitAll_loop_add_child_diverges[OF this] assms wf_heapD(2)[OF assms(1,2)] show False by auto
qed

theorem VisitAll_add_child_diverges_witness:
  "wf_heap ex_tree \<and> (0::nat) < length ex_tree \<and> Nodes (ex_tree ! 0) \<noteq> [] \<and>
   VisitAll (add_child_visitor (Some (GStr ''n''))) 0 (ex_tree, ()) = None"
proof -
  have z: "(0::nat) < length ex_tree" "Nodes (ex_tree ! 0) \<noteq> []" by (simp_all add: ex_tree_eval)
  from wf_ex_tree z VisitAll_add_child_diverges[OF wf_ex_tree z, where a = "Some (GStr ''n'')" and s = "()"]
  show ?thesis by blast
qed

end
