(* ===== verification/Client.thy ===== *)
theory Client
  imports Render Search
begin

text \<open>
  Clients of the \<open>Tree\<close> interface of \<open>src/treeprint.go\<close>. First the
  methods that change a tree, as operations on the heap (\<open>api_op\<close>,
  \<open>api_step\<close>), a client as a sequence of them (\<open>run_ops\<close>) and the heaps
  clients reach (\<open>reachable\<close>, and \<open>reachable_linked\<close> when \<open>Branch()\<close>
  is called on roots only), with the invariants every operation keeps. Then a
  client that holds \<open>Tree\<close> values in variables, nil included, and calls
  any method on them, searches and \<open>String()\<close> included (\<open>call\<close>,
  \<open>call_step\<close>, \<open>run_calls\<close>): such programs always return, and a panic
  on a nil \<open>Tree\<close> happens only through a variable a constructor did not bind.
\<close>

section \<open>Clients of the API\<close>

text \<open>One call of a method of the \<open>Tree\<close> interface that changes the tree;
  the receiver is a node address.\<close>

datatype 'a api_op =
    ONew "'a any"
  | OAddNode nat "'a any"
  | OAddMetaNode nat "'a any" "'a any"
  | OAddBranch nat "'a any"
  | OAddMetaBranch nat "'a any" "'a any"
  | OBranch nat
  | OSetValue nat "'a any"
  | OSetMetaValue nat "'a any"

fun api_step :: "'a heap \<Rightarrow> 'a api_op \<Rightarrow> 'a heap" where
  "api_step h (ONew v) = fst (NewWithRoot h v)"
| "api_step h (OAddNode n a) = fst (AddNode h n a)"
| "api_step h (OAddMetaNode n m a) = fst (AddMetaNode h n m a)"
| "api_step h (OAddBranch n a) = fst (AddBranch h n a)"
| "api_step h (OAddMetaBranch n m a) = fst (AddMetaBranch h n m a)"
| "api_step h (OBranch n) = fst (Branch h n)"
| "api_step h (OSetValue n v) = SetValue h n v"
| "api_step h (OSetMetaValue n m) = SetMetaValue h n m"

fun receiver :: "'a api_op \<Rightarrow> nat option" where
  "receiver (ONew v) = None"
| "receiver (OAddNode n a) = Some n"
| "receiver (OAddMetaNode n m a) = Some n"
| "receiver (OAddBranch n a) = Some n"
| "receiver (OAddMetaBranch n m a) = Some n"
| "receiver (OBranch n) = Some n"
| "receiver (OSetValue n v) = Some n"
| "receiver (OSetMetaValue n m) = Some n"

text \<open>A call is made on a node the client holds: an allocated address.\<close>

definition op_ok :: "'a heap \<Rightarrow> 'a api_op \<Rightarrow> bool" where
  "op_ok h op = (case receiver op of None \<Rightarrow> True | Some n \<Rightarrow> n < length h)"

text \<open>\<open>Branch()\<close> on a node that has a parent detaches it from the parent's view.\<close>

definition detaches :: "'a heap \<Rightarrow> 'a api_op \<Rightarrow> bool" where
  "detaches h op = (case op of OBranch n \<Rightarrow> Root (h ! n) \<noteq> None | _ \<Rightarrow> False)"

text \<open>The heaps a client builds from nothing.\<close>

inductive reachable :: "'a heap \<Rightarrow> bool" where
  reachable_init: "reachable []"
| reachable_step: "reachable h \<Longrightarrow> op_ok h op \<Longrightarrow> reachable (api_step h op)"

inductive reachable_linked :: "'a heap \<Rightarrow> bool" where
  linked_init: "reachable_linked []"
| linked_step: "reachable_linked h \<Longrightarrow> op_ok h op \<Longrightarrow> \<not> detaches h op \<Longrightarrow> reachable_linked (api_step h op)"

text \<open>A client program: its calls in order.\<close>

fun run_ops :: "'a heap \<Rightarrow> 'a api_op list \<Rightarrow> 'a heap" where
  "run_ops h [] = h"
| "run_ops h (op # ops) = run_ops (api_step h op) ops"

fun ops_ok :: "'a heap \<Rightarrow> 'a api_op list \<Rightarrow> bool" where
  "ops_ok h [] = True"
| "ops_ok h (op # ops) = (op_ok h op \<and> ops_ok (api_step h op) ops)"

fun ops_linked_ok :: "'a heap \<Rightarrow> 'a api_op list \<Rightarrow> bool" where
  "ops_linked_ok h [] = True"
| "ops_linked_ok h (op # ops) = (op_ok h op \<and> \<not> detaches h op \<and> ops_linked_ok (api_step h op) ops)"

text \<open>The client that builds the example tree of theory \<open>Node\<close>.\<close>

definition ex_ops :: "gval api_op list" where
  "ex_ops = [ONew (Some (GStr ''.'')), OAddBranch 0 (Some (GStr ''A'')), OAddNode 1 (Some (GStr ''x'')),
             OAddNode 0 (Some (GStr ''B''))]"

text \<open>A client that builds a branch A, not the last child of the root, holding
  a two-line value.\<close>

definition ex_branch_ops :: "gval api_op list" where
  "ex_branch_ops = [ONew (Some (GStr ''.'')), OAddBranch 0 (Some (GStr ''A'')),
     OAddNode 1 (Some (GStr (''p'' @ [NL] @ ''q''))), OAddNode 0 (Some (GStr ''B''))]"

text \<open>
  A client that keeps the \<open>Tree\<close> values the methods return in variables and
  calls methods on them. A \<open>Tree\<close> variable holds a node or nil: a search that
  finds nothing and \<open>FindLastNode\<close> of a leaf return nil, and a variable that
  was never assigned is nil (Go's zero value). A method called on a nil \<open>Tree\<close>
  panics with a nil dereference. \<open>tree_method\<close> lists the methods of the interface
  a client calls, \<open>call\<close> a call of \<open>NewWithRoot\<close> or of a method on a
  variable; every call binds a new variable to what the method returns (nil for
  the methods that return nothing), and \<open>String()\<close> also records its result.
\<close>

datatype 'a tree_method =
    MAddNode "'a any"
  | MAddMetaNode "'a any" "'a any"
  | MAddBranch "'a any"
  | MAddMetaBranch "'a any" "'a any"
  | MBranch
  | MSetValue "'a any"
  | MSetMetaValue "'a any"
  | MFindLastNode
  | MFindByMeta "'a any"
  | MFindByValue "'a any"
  | MString

datatype 'a call = CNew "'a any" | CCall nat "'a tree_method"

text \<open>The client's state: the heap, its variables and the strings \<open>String()\<close> returned.\<close>

record 'a client =
  cheap :: "'a heap"
  cvars :: "nat option list"
  cout :: "string list"

definition client_init :: "'a client" where
  "client_init = \<lparr>cheap = [], cvars = [], cout = []\<rparr>"

definition bind_var :: "'a client \<Rightarrow> 'a heap \<Rightarrow> nat option \<Rightarrow> 'a client" where
  "bind_var st h r = st\<lparr>cheap := h, cvars := cvars st @ [r]\<rparr>"

text \<open>A method called on the node \<open>n\<close>.\<close>

definition invoke :: "'a cfg \<Rightarrow> 'a client \<Rightarrow> nat \<Rightarrow> 'a tree_method \<Rightarrow> (error + 'a client) option" where
  "invoke c st n m =
     (let h = cheap st in
      case m of
        MAddNode a \<Rightarrow> Some (Inr (bind_var st (fst (AddNode h n a)) (Some (snd (AddNode h n a)))))
      | MAddMetaNode mt a \<Rightarrow> Some (Inr (bind_var st (fst (AddMetaNode h n mt a)) (Some (snd (AddMetaNode h n mt a)))))
      | MAddBranch a \<Rightarrow> Some (Inr (bind_var st (fst (AddBranch h n a)) (Some (snd (AddBranch h n a)))))
      | MAddMetaBranch mt a \<Rightarrow> Some (Inr (bind_var st (fst (AddMetaBranch h n mt a)) (Some (snd (AddMetaBranch h n mt a)))))
      | MBranch \<Rightarrow> Some (Inr (bind_var st (fst (Branch h n)) (Some (snd (Branch h n)))))
      | MSetValue v \<Rightarrow> Some (Inr (bind_var st (SetValue h n v) None))
      | MSetMetaValue mt \<Rightarrow> Some (Inr (bind_var st (SetMetaValue h n mt) None))
      | MFindLastNode \<Rightarrow> Some (Inr (bind_var st h (FindLastNode h n)))
      | MFindByMeta mt \<Rightarrow> map_option (\<lambda>r. Inr (bind_var st h r)) (FindByMeta h n mt)
      | MFindByValue v \<Rightarrow> map_option (\<lambda>r. Inr (bind_var st h r)) (FindByValue h n v)
      | MString \<Rightarrow> map_option (map_sum id (\<lambda>s. (bind_var st h None)\<lparr>cout := cout st @ [s]\<rparr>)) (String c h n))"

definition var :: "'a client \<Rightarrow> nat \<Rightarrow> nat option" where
  "var st i = (if i < length (cvars st) then cvars st ! i else None)"

fun call_step :: "'a cfg \<Rightarrow> 'a client \<Rightarrow> 'a call \<Rightarrow> (error + 'a client) option" where
  "call_step c st (CNew v) = Some (Inr (bind_var st (fst (NewWithRoot (cheap st) v)) (Some (snd (NewWithRoot (cheap st) v)))))"
| "call_step c st (CCall i m) = (case var st i of None \<Rightarrow> Some (Inl NilDereference) | Some n \<Rightarrow> invoke c st n m)"

fun run_calls :: "'a cfg \<Rightarrow> 'a client \<Rightarrow> 'a call list \<Rightarrow> (error + 'a client) option" where
  "run_calls c st [] = Some (Inr st)"
| "run_calls c st (k # ks) =
     (case call_step c st k of
        None \<Rightarrow> None
      | Some (Inl e) \<Rightarrow> Some (Inl e)
      | Some (Inr st') \<Rightarrow> run_calls c st' ks)"

text \<open>A program whose every receiver is a variable bound by \<open>NewWithRoot\<close>, an
  \<open>Add...\<close> method or \<open>Branch\<close>, which never return nil.\<close>

fun binds_node :: "'a call \<Rightarrow> bool" where
  "binds_node (CNew v) = True"
| "binds_node (CCall i m) = (case m of MAddNode a \<Rightarrow> True | MAddMetaNode mt a \<Rightarrow> True | MAddBranch a \<Rightarrow> True
     | MAddMetaBranch mt a \<Rightarrow> True | MBranch \<Rightarrow> True | _ \<Rightarrow> False)"

fun safe_calls :: "'a call list \<Rightarrow> 'a call list \<Rightarrow> bool" where
  "safe_calls prev [] = True"
| "safe_calls prev (k # ks) =
     ((case k of CNew v \<Rightarrow> True | CCall i m \<Rightarrow> i < length prev \<and> binds_node (prev ! i)) \<and> safe_calls (prev @ [k]) ks)"

text \<open>The invariant of a client's state: a heap clients reach, and variables that
  hold allocated nodes or nil.\<close>

definition client_ok :: "'a client \<Rightarrow> bool" where
  "client_ok st \<longleftrightarrow> reachable (cheap st) \<and> (\<forall>n. Some n \<in> set (cvars st) \<longrightarrow> n < length (cheap st))"

text \<open>A client that calls \<open>AddNode\<close> on what \<open>FindByMeta\<close> returned, which is nil
  when no node has the metadata; and one that uses only variables bound by
  constructors.\<close>

definition ex_safe_calls :: "gval call list" where
  "ex_safe_calls = [CNew (Some (GStr ''.'')), CCall 0 (MAddBranch (Some (GStr ''A''))),
     CCall 1 (MAddNode (Some (GStr ''x''))), CCall 0 (MFindByMeta (Some (GInt 7))), CCall 0 MString]"

section \<open>Lemmas\<close>

lemma wf_heap_Nil: "wf_heap []"
  by (simp add: wf_heap_def)

lemma api_step_wf: "wf_heap h \<Longrightarrow> op_ok h op \<Longrightarrow> wf_heap (api_step h op)"
  by (cases op) (simp_all add: op_ok_def AddNode_eq AddMetaNode_eq AddBranch_eq AddMetaBranch_eq
      wf_heap_child_heap wf_heap_NewWithRoot wf_heap_Branch wf_heap_SetValue wf_heap_SetMetaValue)

lemma reachable_wf: "reachable h \<Longrightarrow> wf_heap h"
  by (induction rule: reachable.induct) (simp_all add: wf_heap_Nil api_step_wf)

lemma api_step_owned: "wf_heap h \<Longrightarrow> owned h \<Longrightarrow> op_ok h op \<Longrightarrow> owned (api_step h op)"
  by (cases op) (simp_all add: op_ok_def AddNode_eq AddMetaNode_eq AddBranch_eq AddMetaBranch_eq owned_child_heap
      NewWithRoot_def alloc_def owned_snoc_root Branch_def SetValue_def SetMetaValue_def owned_same_links
      nth_list_update_if)

text \<open>The specified text has one line per node when no glyph and no label holds a line break.\<close>

lemma NL_notin_seg: "NL \<notin> set (EdgeTypeLink c) \<Longrightarrow> NL \<notin> set (seg c b)"
  by (simp add: seg_def)

lemma count_spec_nodes:
  "NL \<notin> set (EdgeTypeLink c @ EdgeTypeMid c @ EdgeTypeEnd c) \<Longrightarrow> \<forall>t \<in> set ts. labels_one_line c t \<Longrightarrow>
   count_list (spec_nodes c anc ts) NL = length (paths_from 0 ts)"
proof (induction c anc ts rule: spec_nodes.induct)
  case (2 c anc m v ks ts)
  have v: "indent_lines pad (fmt_any (fmtv c) v) = fmt_any (fmtv c) v" for pad
    using "2.prems"(2) by (simp add: indent_lines_no_NL)
  have mt: "NL \<notin> set (case m of Some mm \<Rightarrow> '' ['' @ fmtv c mm @ '']  '' | None \<Rightarrow> '' '')"
    using "2.prems"(2) by (auto simp: fmt_any_def split: option.splits)
  have pre: "NL \<notin> set (concat (map (seg c) anc) @ (if ts = [] then EdgeTypeEnd c else EdgeTypeMid c))"
    using "2.prems"(1) NL_notin_seg[of c] by auto
  have "count_list (spec_nodes c anc (Tr m v ks # ts)) NL =
        Suc (count_list (spec_nodes c (anc @ [ts = []]) ks) NL + count_list (spec_nodes c anc ts) NL)"
    using pre mt "2.prems"(2) by (simp add: v count_notin del: append_assoc)
  then show ?case using "2.IH" "2.prems" by (simp add: length_paths_from[of "Suc 0" _ 0])
qed simp

text \<open>The nodes a method returns: the last child, a search hit, a new branch.\<close>

lemma FindLastNode_desc: "p < length h \<Longrightarrow> FindLastNode h p = Some q \<Longrightarrow> desc h p q"
  by (auto simp: FindLastNode_def Let_def split: if_splits intro!: desc_child)

lemma FindByValue_desc:
  assumes wf: "wf_heap h" and p: "p < length h" and f: "FindByValue h p v = Some (Some q)"
  shows "desc h p q"
proof -
  have "\<forall>c \<in> set (Nodes (h ! p)). \<exists>u. repr h c u"
    using wf p wf_heapD(2)[OF wf p] repr_exists by blast
  from findByValue_loop_sound[OF this, of v] f obtain c where c: "c \<in> set (Nodes (h ! p))"
    and cq: "c = q \<or> desc h c q" by (auto simp: FindByValue_def)
  have "desc h p c" using p c by (rule desc_child)
  with cq show ?thesis by (auto intro: desc_trans)
qed

lemma AddBranch_desc: "p < length h \<Longrightarrow> desc (fst (AddBranch h p a)) p (snd (AddBranch h p a))"
  by (rule desc_child) (simp_all add: AddBranch_eq Nodes_child_heap)

lemma api_step_linked:
  assumes "wf_heap h" "linked h" "op_ok h op" "\<not> detaches h op"
  shows "linked (api_step h op)"
proof (cases op)
  case (ONew v)
  with assms show ?thesis by (simp add: NewWithRoot_def alloc_def linked_snoc_root)
next
  case (OBranch n)
  with assms(4) have "Root (h ! n) = None" by (simp add: detaches_def)
  with OBranch assms(2) show ?thesis by (simp add: Branch_root)
next
  case (OSetValue n v)
  then show ?thesis using assms(1,2)
    by (simp add: SetValue_def linked_same_links nth_list_update_if)
next
  case (OSetMetaValue n v)
  then show ?thesis using assms(1,2)
    by (simp add: SetMetaValue_def linked_same_links nth_list_update_if)
qed (use assms in \<open>simp_all add: op_ok_def AddNode_eq AddMetaNode_eq AddBranch_eq AddMetaBranch_eq linked_child_heap\<close>)

lemma reachable_linked_inv: "reachable_linked h \<Longrightarrow> wf_heap h \<and> linked h"
proof (induction rule: reachable_linked.induct)
  case linked_init
  show ?case by (simp add: wf_heap_Nil linked_def)
next
  case (linked_step h op)
  then show ?case using api_step_wf api_step_linked by blast
qed

lemma run_ops_reachable: "reachable h \<Longrightarrow> ops_ok h ops \<Longrightarrow> reachable (run_ops h ops)"
  by (induction h ops rule: run_ops.induct) (auto intro: reachable_step)

lemma run_ops_reachable_linked:
  "reachable_linked h \<Longrightarrow> ops_linked_ok h ops \<Longrightarrow> reachable_linked (run_ops h ops)"
  by (induction h ops rule: run_ops.induct) (auto intro: linked_step)

lemma ex_ops_ex_tree: "run_ops [] ex_ops = ex_tree"
  by (simp add: ex_ops_def ex_tree_def New_def)

lemma reachable_ex_tree: "reachable ex_tree"
proof -
  have "ops_ok [] ex_ops"
    by (simp add: ex_ops_def op_ok_def NewWithRoot_def alloc_def AddBranch_def AddNode_def append_child_def)
  from run_ops_reachable[OF reachable_init this] show ?thesis by (simp add: ex_ops_ex_tree)
qed

lemma reachable_linked_ex_tree: "reachable_linked ex_tree"
proof -
  have "ops_linked_ok [] ex_ops"
    by (simp add: ex_ops_def op_ok_def detaches_def NewWithRoot_def alloc_def AddBranch_def AddNode_def
        append_child_def)
  from run_ops_reachable_linked[OF linked_init this] show ?thesis by (simp add: ex_ops_ex_tree)
qed

text \<open>The printf-style wrappers are API steps with the formatted string as value,
  so every property of the heaps clients reach holds for clients that use them.\<close>

lemma wrappers_api_step:
  "fst (AddNodef sprintf str h n f args) = api_step h (OAddNode n (Some (str (sprintf f args))))"
  "fst (AddMetaNodef sprintf str h n m f args) = api_step h (OAddMetaNode n m (Some (str (sprintf f args))))"
  "fst (AddBranchf sprintf str h n f args) = api_step h (OAddBranch n (Some (str (sprintf f args))))"
  "fst (AddMetaBranchf sprintf str h n m f args) = api_step h (OAddMetaBranch n m (Some (str (sprintf f args))))"
  "SetValuef sprintf str h n f args = api_step h (OSetValue n (Some (str (sprintf f args))))"
  "fst (NewWithRootf sprintf str h f args) = api_step h (ONew (Some (str (sprintf f args))))"
  by (simp_all add: AddNodef_def AddMetaNodef_def AddBranchf_def AddMetaBranchf_def SetValuef_def
      SetValue_def NewWithRootf_def NewWithRoot_def)


subsection \<open>Clients with variables\<close>

lemma length_api_step: "length h \<le> length (api_step h op)"
  by (cases op) (simp_all add: NewWithRoot_def alloc_def AddNode_eq AddMetaNode_eq AddBranch_eq
      AddMetaBranch_eq Branch_def SetValue_def SetMetaValue_def)

lemma bind_var_ok:
  assumes "client_ok st" "reachable h'" "length (cheap st) \<le> length h'" "\<forall>n. r = Some n \<longrightarrow> n < length h'"
  shows "client_ok (bind_var st h' r)"
  using assms by (auto simp: client_ok_def bind_var_def)

lemma bind_var_step_ok:
  assumes "client_ok st" "op_ok (cheap st) op" "\<forall>n. r = Some n \<longrightarrow> n < length (api_step (cheap st) op)"
  shows "client_ok (bind_var st (api_step (cheap st) op) r)"
  using assms(1) reachable_step[OF _ assms(2)] length_api_step assms(3)
  by (intro bind_var_ok) (auto simp: client_ok_def)

lemma var_ok: "client_ok st \<Longrightarrow> var st i = Some n \<Longrightarrow> n < length (cheap st)"
  unfolding client_ok_def var_def by (metis nth_mem option.distinct(1))

lemma found_ok:
  assumes "reachable h" "p < length h" "r = FindLastNode h p \<or> FindByMeta h p m = Some r \<or> FindByValue h p v = Some r"
  shows "\<forall>q. r = Some q \<longrightarrow> q < length h"
proof (intro allI impI)
  fix q assume q: "r = Some q"
  have wf: "wf_heap h" using assms(1) by (rule reachable_wf)
  from repr_exists[OF wf assms(2)] obtain t where t: "repr h p t" by blast
  from assms(3) q have "desc h p q"
    using FindLastNode_desc[OF assms(2)] FindByMeta_desc[OF t] FindByValue_desc[OF wf assms(2)] by auto
  with desc_wf[OF wf] show "q < length h" by blast
qed

text \<open>The methods that change the tree are API steps on the receiver.\<close>

lemma invoke_api_step:
  "invoke c st n (MAddNode a) = Some (Inr (bind_var st (api_step (cheap st) (OAddNode n a)) (Some n)))"
  "invoke c st n (MAddMetaNode mt a) = Some (Inr (bind_var st (api_step (cheap st) (OAddMetaNode n mt a)) (Some n)))"
  "invoke c st n (MAddBranch a) = Some (Inr (bind_var st (api_step (cheap st) (OAddBranch n a)) (Some (length (cheap st)))))"
  "invoke c st n (MAddMetaBranch mt a) =
     Some (Inr (bind_var st (api_step (cheap st) (OAddMetaBranch n mt a)) (Some (length (cheap st)))))"
  "invoke c st n MBranch = Some (Inr (bind_var st (api_step (cheap st) (OBranch n)) (Some n)))"
  "invoke c st n (MSetValue v) = Some (Inr (bind_var st (api_step (cheap st) (OSetValue n v)) None))"
  "invoke c st n (MSetMetaValue mt) = Some (Inr (bind_var st (api_step (cheap st) (OSetMetaValue n mt)) None))"
  by (simp_all add: invoke_def Let_def AddNode_eq AddMetaNode_eq AddBranch_eq AddMetaBranch_eq Branch_def)

lemma invoke_ok:
  assumes ok: "client_ok st" and n: "n < length (cheap st)"
  shows "\<exists>r. invoke c st n m = Some r \<and> (\<forall>st'. r = Inr st' \<longrightarrow> client_ok st')"
proof -
  let ?h = "cheap st"
  have R: "reachable ?h" and wf: "wf_heap ?h" using ok reachable_wf by (auto simp: client_ok_def)
  have opk: "op_ok ?h op" if "receiver op = Some n" for op :: "'a api_op"
    using n that by (simp add: op_ok_def)
  have grow: "n < length (api_step ?h op)" for op :: "'a api_op"
    using n length_api_step[of ?h op] by simp
  have new: "length ?h < length (api_step ?h (OAddBranch n a))" "length ?h < length (api_step ?h (OAddMetaBranch n mt a))"
    for a mt :: "'a any" using n by (simp_all add: AddBranch_eq AddMetaBranch_eq)
  have same: "client_ok (bind_var st ?h r)" if "\<forall>q. r = Some q \<longrightarrow> q < length ?h" for r
    using bind_var_ok[OF ok R _ that] by simp
  show ?thesis
  proof (cases m)
    case (MFindLastNode)
    with same found_ok[OF R n, of "FindLastNode (cheap st) n"] show ?thesis by (simp add: invoke_def Let_def)
  next
    case (MFindByMeta mt)
    from FindByMeta_terminates[OF wf n] obtain r where f: "FindByMeta ?h n mt = Some r" by blast
    with same found_ok[OF R n, of r mt] have "client_ok (bind_var st ?h r)" by blast
    with f MFindByMeta show ?thesis by (simp add: invoke_def Let_def)
  next
    case (MFindByValue v)
    from FindByValue_terminates[OF wf n] obtain r where f: "FindByValue ?h n v = Some r" by blast
    with same found_ok[OF R n, of r _ v] have "client_ok (bind_var st ?h r)" by blast
    with f MFindByValue show ?thesis by (simp add: invoke_def Let_def)
  next
    case MString
    from Writer_terminates[OF wf n] obtain y where "Writer c ?h n = Some y" by blast
    with MString same[of None] show ?thesis
      by (auto simp: invoke_def String_def Bytes_def client_ok_def bind_var_def split: option.splits)
  qed (auto simp: invoke_api_step simp del: api_step.simps intro!: bind_var_step_ok[OF ok] opk grow new)
qed

lemma client_init_ok: "client_ok client_init"
  by (simp add: client_ok_def client_init_def reachable_init)

lemma call_step_ok:
  assumes ok: "client_ok st"
  shows "\<exists>r. call_step c st k = Some r \<and> (\<forall>st'. r = Inr st' \<longrightarrow> client_ok st')"
proof (cases k)
  case (CNew v)
  have "client_ok (bind_var st (api_step (cheap st) (ONew v)) (Some (length (cheap st))))"
    using bind_var_step_ok[OF ok, of "ONew v" "Some (length (cheap st))"]
    by (simp add: op_ok_def NewWithRoot_def alloc_def)
  with CNew show ?thesis by (simp add: NewWithRoot_def alloc_def)
next
  case (CCall i m)
  show ?thesis
  proof (cases "var st i")
    case (Some n)
    with CCall invoke_ok[OF ok var_ok[OF ok Some]] show ?thesis by simp
  qed (simp add: CCall)
qed

lemma run_calls_ok: "client_ok st \<Longrightarrow> \<exists>r. run_calls c st ks = Some r"
proof (induction ks arbitrary: st)
  case (Cons k ks)
  from call_step_ok[OF Cons.prems, of c k] obtain r where r: "call_step c st k = Some r"
    and ok: "\<forall>st'. r = Inr st' \<longrightarrow> client_ok st'" by blast
  show ?case
  proof (cases r)
    case (Inr st')
    with r ok Cons.IH[of st'] show ?thesis by simp
  qed (simp add: r)
qed simp

lemma invoke_not_nil: "invoke c st n m \<noteq> Some (Inl NilDereference)"
  using Writer_not_nil[of c "cheap st" n]
  by (cases m) (auto simp: invoke_def Let_def String_def Bytes_def split: option.splits)

lemma invoke_vars:
  "invoke c st n m = Some (Inr st') \<Longrightarrow> \<exists>r. cvars st' = cvars st @ [r] \<and> (binds_node (CCall i m) \<longrightarrow> r \<noteq> None)"
  by (cases m) (auto simp: invoke_def Let_def bind_var_def String_def Bytes_def split: option.splits sum.splits)

lemma call_step_vars:
  "call_step c st k = Some (Inr st') \<Longrightarrow> \<exists>r. cvars st' = cvars st @ [r] \<and> (binds_node k \<longrightarrow> r \<noteq> None)"
proof (cases k)
  case (CCall i m)
  then show "call_step c st k = Some (Inr st') \<Longrightarrow> ?thesis"
    using invoke_vars[of c st _ m st' i] by (auto split: option.splits)
qed (auto simp: bind_var_def)

lemma run_calls_safe:
  "client_ok st \<Longrightarrow> length (cvars st) = length prev \<Longrightarrow>
   (\<forall>i < length prev. binds_node (prev ! i) \<longrightarrow> cvars st ! i \<noteq> None) \<Longrightarrow> safe_calls prev ks \<Longrightarrow>
   run_calls c st ks \<noteq> Some (Inl NilDereference)"
proof (induction ks arbitrary: st prev)
  case (Cons k ks)
  from call_step_ok[OF Cons.prems(1), of c k] obtain r where r: "call_step c st k = Some r"
    and ok: "\<forall>st'. r = Inr st' \<longrightarrow> client_ok st'" by blast
  have recv: "case k of CNew v \<Rightarrow> True | CCall i m \<Rightarrow> i < length prev \<and> binds_node (prev ! i)"
    and rest: "safe_calls (prev @ [k]) ks" using Cons.prems(4) by simp_all
  show ?case
  proof (cases r)
    case (Inl e)
    have "e \<noteq> NilDereference"
    proof (cases k)
      case (CCall i m)
      with recv Cons.prems(2,3) have "var st i \<noteq> None" by (simp add: var_def)
      then obtain n where "var st i = Some n" by blast
      with r Inl CCall invoke_not_nil[of c st n m] show ?thesis by auto
    qed (use r Inl in simp)
    with r Inl show ?thesis by simp
  next
    case (Inr st')
    from call_step_vars[of c st k st'] r Inr obtain v where v: "cvars st' = cvars st @ [v]"
      and b: "binds_node k \<longrightarrow> v \<noteq> None" by blast
    have "\<forall>i < length (prev @ [k]). binds_node ((prev @ [k]) ! i) \<longrightarrow> cvars st' ! i \<noteq> None"
      using Cons.prems(2,3) v b by (auto simp: nth_append less_Suc_eq)
    with Cons.IH[of st' "prev @ [k]"] ok Inr v Cons.prems(2) rest r show ?thesis by simp
  qed
qed simp

section \<open>Properties of clients\<close>

text \<open>C8: Every client program returns: whatever methods it calls, on whatever variables, in whatever order, running it from the empty state never diverges; it ends in a state or in a panic.\<close>

theorem run_calls_terminates: "\<exists>r. run_calls c client_init prog = Some r"
  using run_calls_ok[OF client_init_ok] .

text \<open>C9: A client whose every receiver is a variable bound by NewWithRoot, an Add... method or Branch never panics with a nil dereference: the renderer and the searches do not dereference nil, and the constructors never return nil.\<close>

theorem safe_calls_no_nil_panic:
  "safe_calls [] prog \<Longrightarrow> run_calls c client_init prog \<noteq> Some (Inl NilDereference)"
  using run_calls_safe[OF client_init_ok, of "[]" prog c] by (simp add: client_init_def)

theorem safe_calls_no_nil_panic_witness:
  "run_calls (default_cfg fmt_gval) client_init ex_safe_calls \<noteq> Some (Inl NilDereference)"
proof -
  have "safe_calls [] ex_safe_calls" by (simp add: ex_safe_calls_def)
  from safe_calls_no_nil_panic[OF this] show ?thesis .
qed

end
