(* ===== verification/Tags.thy ===== *)
theory Tags
  imports Prelude
begin

text \<open>
  The struct-tag helpers at the end of \<open>src/treeprint.go\<close>: \<open>tagSpec\<close>, which
  reads the name and the \<open>omitempty\<close> option of a tag value, and
  \<open>filterTags\<close>, which drops the \<open>tree:\<close> entries from a struct tag. A
  \<open>reflect.StructTag\<close> is a Go string, here a \<open>string\<close>. Both are pure
  string functions built on \<open>strings.Split\<close>, \<open>strings.HasPrefix\<close> and
  \<open>strings.Join\<close> of theory \<open>Prelude\<close>.
\<close>

section \<open>Definitions\<close>

text \<open>\<open>tagSpec(tag)\<close>: the first comma-separated part is the name; the tag is
  omitted when empty iff the second part is exactly \<open>omitempty\<close>.\<close>

definition tagSpec :: "string \<Rightarrow> string \<times> bool" where
  "tagSpec tag =
     (let parts = go_Split CHR '','' tag in
      if length parts < 2 then (tag, False)
      else if parts ! 1 = ''omitempty'' then (parts ! 0, True)
      else (parts ! 0, False))"

text \<open>The loop of \<open>filterTags\<close>: \<open>filtered\<close> is the accumulator, the list the
  tags not yet looked at; a tag starting with \<open>tree:\<close> is skipped
  (\<open>continue\<close>), any other is appended.\<close>

fun filterTags_loop :: "string list \<Rightarrow> string list \<Rightarrow> string list" where
  "filterTags_loop filtered [] = filtered"
| "filterTags_loop filtered (t # ts) =
     (if go_HasPrefix t ''tree:'' then filterTags_loop filtered ts
      else filterTags_loop (filtered @ [t]) ts)"

definition filterTags :: "string \<Rightarrow> string" where
  "filterTags tag = go_Join (filterTags_loop [] (go_Split CHR '' '' tag)) '' ''"

text \<open>The reference behaviour: keep, in order, the space-separated entries that
  do not start with \<open>tree:\<close>.\<close>

definition keep_tag :: "string \<Rightarrow> bool" where
  "keep_tag t = (\<not> go_HasPrefix t ''tree:'')"

section \<open>Lemmas\<close>

lemma hd_go_Split: "hd (go_Split sep s) = takeWhile (\<lambda>c. c \<noteq> sep) s"
  by (induction s) auto

lemma nth0_go_Split: "go_Split sep s ! 0 = takeWhile (\<lambda>c. c \<noteq> sep) s"
  using hd_go_Split[of sep s] by (simp add: hd_conv_nth)

lemma tl_go_Split:
  "tl (go_Split sep s) = (if sep \<in> set s then go_Split sep (tl (dropWhile (\<lambda>c. c \<noteq> sep) s)) else [])"
proof (induction s)
  case (Cons c s)
  then show ?case by (cases "c = sep") auto
qed simp

text \<open>A string with a separator splits into the text before the first one and the pieces of the rest.\<close>

lemma go_Split_first:
  assumes "sep \<in> set s"
  shows "go_Split sep s = takeWhile (\<lambda>c. c \<noteq> sep) s # go_Split sep (tl (dropWhile (\<lambda>c. c \<noteq> sep) s))"
proof -
  have "go_Split sep s = hd (go_Split sep s) # tl (go_Split sep s)" by simp
  also have "\<dots> = takeWhile (\<lambda>c. c \<noteq> sep) s # go_Split sep (tl (dropWhile (\<lambda>c. c \<noteq> sep) s))"
    by (simp only: hd_go_Split tl_go_Split if_P[OF assms])
  finally show ?thesis .
qed

lemma filterTags_loop_filter: "filterTags_loop acc ts = acc @ filter keep_tag ts"
  by (induction acc ts rule: filterTags_loop.induct) (simp_all add: keep_tag_def)

lemma keep_tag_Nil [simp]: "keep_tag []"
  by (simp add: keep_tag_def go_HasPrefix_def)

lemma filterTags_filter: "filterTags tag = go_Join (filter keep_tag (go_Split CHR '' '' tag)) '' ''"
  by (simp add: filterTags_def filterTags_loop_filter)

section \<open>Properties\<close>

text \<open>C28: tagSpec returns as name the tag up to its first comma, and sets omit exactly when the tag has a comma and the text between the first comma and the next comma (or the end) is omitempty.\<close>

theorem tagSpec_name_omit:
  "tagSpec tag =
     (takeWhile (\<lambda>c. c \<noteq> CHR '','') tag,
      CHR '','' \<in> set tag \<and> takeWhile (\<lambda>c. c \<noteq> CHR '','') (tl (dropWhile (\<lambda>c. c \<noteq> CHR '','') tag)) = ''omitempty'')"
proof (cases "CHR '','' \<in> set tag")
  case True
  then show ?thesis unfolding tagSpec_def Let_def go_Split_first[OF True] by (simp add: nth0_go_Split)
next
  case False
  then have tw: "takeWhile (\<lambda>c. c \<noteq> CHR '','') tag = tag" by (induction tag) auto
  show ?thesis unfolding tagSpec_def Let_def go_Split_single[OF False] tw using False by simp
qed

text \<open>C29: filterTags keeps, in their order, exactly the space-separated entries of the tag that do not start with tree:, joined with single spaces: the loop with its continue is the filter of the entries.\<close>

theorem filterTags_spec:
  "filterTags tag = go_Join (filter (\<lambda>t. \<not> go_HasPrefix t ''tree:'') (go_Split CHR '' '' tag)) '' ''"
  using filterTags_filter by (simp add: keep_tag_def[abs_def])

end
