(* ===== verification/Slices.thy ===== *)
theory Slices
  imports Render
begin

text \<open>The Go renderer passes \<open>levelsEnded []int\<close> down the recursion and extends it with
  \<open>append\<close> (\<open>Writer\<close>, line 172; \<open>printNodes\<close>, line 218). A Go slice is a header
  (array, length, capacity) over a shared backing array, and \<open>append\<close> writes in place
  when the capacity allows it, so a callee's \<open>append\<close> can overwrite an element of an array
  that its caller still reads. This theory models slices over an explicit store of backing
  arrays, with the capacity growth of \<open>append\<close> left as a parameter \<open>g\<close> (the runtime's
  policy is not part of the language), and proves that the renderer over this store
  (\<open>printNodes_go\<close>, \<open>Writer_go\<close>) produces exactly the output of the renderer over
  immutable lists in \<open>Render\<close>, whatever the growth policy.\<close>

record slice =
  sarr :: nat
  slen :: nat
  scap :: nat

text \<open>The store: backing array \<open>a\<close> is \<open>m ! a\<close>, its length the capacity of the slices
  over it. A nil slice has capacity 0 and reads no array.\<close>

type_synonym arrays = "int list list"

definition nil_slice :: slice where
  "nil_slice = \<lparr>sarr = 0, slen = 0, scap = 0\<rparr>"

definition view :: "arrays \<Rightarrow> slice \<Rightarrow> int list" where
  "view m s = take (slen s) (m ! sarr s)"

text \<open>\<open>append(s, x)\<close>: within the capacity it stores \<open>x\<close> at index \<open>len(s)\<close> of the shared
  array and returns a longer header over the same array; otherwise it allocates an array of
  capacity at least \<open>len(s) + 1\<close> (the policy \<open>grow\<close> proposes one), copies the elements
  and zero-fills the rest.\<close>

definition go_append :: "(nat \<Rightarrow> nat) \<Rightarrow> arrays \<Rightarrow> slice \<Rightarrow> int \<Rightarrow> arrays \<times> slice" where
  "go_append grow m s x =
     (if slen s < scap s then (m[sarr s := (m ! sarr s)[slen s := x]], s\<lparr>slen := slen s + 1\<rparr>)
      else let c = max (slen s + 1) (grow (scap s)) in
        (m @ [view m s @ [x] @ replicate (c - slen s - 1) 0], \<lparr>sarr = length m, slen = slen s + 1, scap = c\<rparr>))"

text \<open>\<open>printNodes\<close> and \<open>Writer\<close> with \<open>levelsEnded\<close> as a slice: the store is threaded
  through the calls in the order Go executes them, and \<open>printValues\<close> reads the elements
  the slice header sees at the time of the call.\<close>

partial_function (option) printNodes_go ::
  "(nat \<Rightarrow> nat) \<Rightarrow> 'a cfg \<Rightarrow> 'a heap \<Rightarrow> int \<Rightarrow> slice \<Rightarrow> nat list \<Rightarrow> arrays \<Rightarrow> (wout \<times> arrays) option" where
  "printNodes_go g c h level ended ns m =
     (case ns of
        [] \<Rightarrow> Some (emit [], m)
      | node # rest \<Rightarrow>
          (let (m1, ended') = (if rest = [] then go_append g m ended level else (m, ended));
               edge = (if rest = [] then EdgeTypeEnd c else EdgeTypeMid c);
               r1 = printValues c h level (view m1 ended') edge node
           in if fst r1 \<noteq> None then Some (r1, m1)
              else Option.bind
                (if Nodes (h ! node) \<noteq> [] then printNodes_go g c h (level + 1) ended' (Nodes (h ! node)) m1
                 else Some (emit [], m1))
                (\<lambda>(r2, m2). if fst r2 \<noteq> None then Some (wseq r1 r2, m2)
                      else Option.bind (printNodes_go g c h level ended' rest m2)
                             (\<lambda>(r3, m3). Some (wseq (wseq r1 r2) r3, m3)))))"

declare printNodes_go.simps [code]

definition Writer_go :: "(nat \<Rightarrow> nat) \<Rightarrow> 'a cfg \<Rightarrow> 'a heap \<Rightarrow> nat \<Rightarrow> wout option" where
  "Writer_go g c h n =
     (let level = 0;
          (r1, m, ended) =
            (if Root (h ! n) = None then
               (wseq (case Meta (h ! n) of
                        Some mt \<Rightarrow> emit (''['' @ fmtv c mt @ '']  '' @ fmt_any (fmtv c) (Value (h ! n)))
                      | None \<Rightarrow> emit (fmt_any (fmtv c) (Value (h ! n))))
                     (emit [NL]), [], nil_slice)
             else
               (let (edge, m, ended) =
                      (if Nodes (h ! n) = [] then (EdgeTypeEnd c, go_append g [] nil_slice level)
                       else (EdgeTypeMid c, [], nil_slice))
                in (printValues c h 0 (view m ended) edge n, m, ended)))
      in if fst r1 \<noteq> None then Some r1
         else if Nodes (h ! n) \<noteq> [] then map_option (\<lambda>(r2, m2). wseq r1 r2) (printNodes_go g c h level ended (Nodes (h ! n)) m)
         else Some r1)"

text \<open>A header is well formed when its length is within its capacity and a non-empty
  capacity names an array of that length. \<open>frame m m' s\<close>: the store grew from \<open>m\<close> to
  \<open>m'\<close> without changing any array except past the length of \<open>s\<close> in its own array; the
  recursion only writes at or beyond the length of the slice it was given, so every
  caller's view survives its callees.\<close>

definition slice_ok :: "arrays \<Rightarrow> slice \<Rightarrow> bool" where
  "slice_ok m s \<longleftrightarrow> slen s \<le> scap s \<and> (0 < scap s \<longrightarrow> sarr s < length m \<and> length (m ! sarr s) = scap s)"

definition frame :: "arrays \<Rightarrow> arrays \<Rightarrow> slice \<Rightarrow> bool" where
  "frame m m' s \<longleftrightarrow> length m \<le> length m' \<and>
     (\<forall>a < length m. length (m' ! a) = length (m ! a) \<and>
        (if a = sarr s \<and> 0 < scap s then take (slen s) (m' ! a) = take (slen s) (m ! a) else m' ! a = m ! a))"

lemma frame_refl: "frame m m s"
  by (simp add: frame_def)

lemma frame_view: "slice_ok m s \<Longrightarrow> frame m m' s \<Longrightarrow> view m' s = view m s \<and> slice_ok m' s"
  by (cases "0 < scap s") (auto simp: frame_def slice_ok_def view_def)

lemma frame_trans: "slice_ok m s \<Longrightarrow> frame m m1 s \<Longrightarrow> frame m1 m2 s \<Longrightarrow> frame m m2 s"
  unfolding frame_def slice_ok_def by (metis (no_types, lifting) order.trans less_le_trans)

lemma length_view: "slice_ok m s \<Longrightarrow> length (view m s) = slen s"
  by (cases "0 < scap s") (auto simp: slice_ok_def view_def min_def)

lemma take_Suc_update: "n < length xs \<Longrightarrow> take (Suc n) (xs[n := x]) = take n xs @ [x]"
  by (simp add: take_Suc_conv_app_nth)

lemma go_append_ok:
  assumes ok: "slice_ok m s" and ap: "go_append g m s x = (m1, s1)"
  shows "slice_ok m1 s1 \<and> view m1 s1 = view m s @ [x] \<and> frame m m1 s"
proof (cases "slen s < scap s")
  case True
  with ok have a: "sarr s < length m" "length (m ! sarr s) = scap s" by (auto simp: slice_ok_def)
  from True ap have m1: "m1 = m[sarr s := (m ! sarr s)[slen s := x]]" and s1: "s1 = s\<lparr>slen := slen s + 1\<rparr>"
    by (auto simp: go_append_def)
  show ?thesis using True a ok
    by (auto simp: m1 s1 slice_ok_def view_def frame_def take_Suc_update nth_list_update)
next
  case False
  let ?c = "max (slen s + 1) (g (scap s))"
  from False ap have m1: "m1 = m @ [view m s @ [x] @ replicate (?c - slen s - 1) 0]"
    and s1: "s1 = \<lparr>sarr = length m, slen = slen s + 1, scap = ?c\<rparr>" by (auto simp: go_append_def Let_def)
  show ?thesis using length_view[OF ok]
    by (auto simp: m1 s1 slice_ok_def view_def frame_def nth_append)
qed

lemma frame_append_trans:
  assumes ok: "slice_ok m s" and ap: "go_append g m s x = (m1, s1)" and f: "frame m1 m2 s1"
  shows "frame m m2 s"
proof (cases "slen s < scap s")
  case True
  with ok have a: "sarr s < length m" "length (m ! sarr s) = scap s" by (auto simp: slice_ok_def)
  from True ap have m1: "m1 = m[sarr s := (m ! sarr s)[slen s := x]]" and s1: "s1 = s\<lparr>slen := slen s + 1\<rparr>"
    by (auto simp: go_append_def)
  have "take (slen s) (m2 ! sarr s) = take (slen s) (m ! sarr s)"
  proof -
    from f a True have "take (Suc (slen s)) (m2 ! sarr s) = take (Suc (slen s)) (m1 ! sarr s)"
      by (auto simp: frame_def m1 s1)
    then have "take (slen s) (m2 ! sarr s) = take (slen s) (m1 ! sarr s)"
      by (metis lessI min.strict_order_iff take_take)
    with a show ?thesis by (simp add: m1)
  qed
  with f a True show ?thesis by (auto simp: frame_def m1 s1 nth_list_update)
next
  case False
  let ?c = "max (slen s + 1) (g (scap s))"
  from False ap have m1: "m1 = m @ [view m s @ [x] @ replicate (?c - slen s - 1) 0]"
    and s1: "s1 = \<lparr>sarr = length m, slen = slen s + 1, scap = ?c\<rparr>" by (auto simp: go_append_def Let_def)
  from f show ?thesis by (auto simp: frame_def m1 s1 nth_append)
qed


lemma append_step:
  assumes ok: "slice_ok m s" and st: "(if b then go_append g m s x else (m, s)) = (m1, s1)"
  shows "slice_ok m1 s1" "view m1 s1 = (if b then view m s @ [x] else view m s)"
    and "frame m1 m2 s1 \<Longrightarrow> frame m m2 s"
proof -
  show "slice_ok m1 s1" "view m1 s1 = (if b then view m s @ [x] else view m s)"
    using go_append_ok[OF ok] ok st by (auto split: if_splits)
  show "frame m1 m2 s1 \<Longrightarrow> frame m m2 s"
    using frame_append_trans[OF ok] st by (auto split: if_splits)
qed

lemma printNodes_go_eq:
  "list_all2 (repr h) ns ts \<Longrightarrow> slice_ok m s \<Longrightarrow>
   \<exists>r m'. printNodes c h level (view m s) ns = Some r \<and> printNodes_go g c h level s ns m = Some (r, m') \<and> frame m m' s"
proof (induction "size_list size ts" arbitrary: ts ns level s m rule: less_induct)
  case less
  show ?case
  proof (cases ts)
    case Nil
    with less.prems show ?thesis by (simp add: printNodes.simps printNodes_go.simps frame_refl)
  next
    case (Cons t ts')
    obtain mt v ks where t: "t = Tr mt v ks" by (cases t)
    from less.prems Cons t obtain x ns' where ns: "ns = x # ns'" and rx: "repr h x (Tr mt v ks)"
      and rest: "list_all2 (repr h) ns' ts'" by (auto simp: list_all2_Cons2)
    from rx have kx: "list_all2 (repr h) (Nodes (h ! x)) ks" by (auto elim: repr_elim)
    obtain m1 s1 where ms1: "(if ns' = [] then go_append g m s level else (m, s)) = (m1, s1)" by fastforce
    note A = append_step[OF less.prems(2) ms1]
    let ?e = "view m1 s1"
    let ?r1 = "printValues c h level ?e (if ns' = [] then EdgeTypeEnd c else EdgeTypeMid c) x"
    have kids: "\<exists>r2 m2. (if Nodes (h ! x) \<noteq> [] then printNodes c h (level + 1) ?e (Nodes (h ! x)) else Some (emit [])) = Some r2 \<and>
        (if Nodes (h ! x) \<noteq> [] then printNodes_go g c h (level + 1) s1 (Nodes (h ! x)) m1 else Some (emit [], m1)) = Some (r2, m2) \<and>
        frame m1 m2 s1"
    proof (cases "Nodes (h ! x) = []")
      case False
      have "size_list size ks < size_list size ts" using Cons t by simp
      from less.hyps[where level="level + 1", OF this kx A(1)] False show ?thesis by simp
    qed (simp add: frame_refl)
    then obtain r2 m2 where r2: "(if Nodes (h ! x) \<noteq> [] then printNodes c h (level + 1) ?e (Nodes (h ! x)) else Some (emit [])) = Some r2"
      and g2: "(if Nodes (h ! x) \<noteq> [] then printNodes_go g c h (level + 1) s1 (Nodes (h ! x)) m1 else Some (emit [], m1)) = Some (r2, m2)"
      and f2: "frame m1 m2 s1" by blast
    from frame_view[OF A(1) f2] have v2: "view m2 s1 = ?e" and ok2: "slice_ok m2 s1" by simp_all
    have "size_list size ts' < size_list size ts" using Cons by simp
    from less.hyps[where level=level, OF this rest ok2] v2 obtain r3 m3 where r3: "printNodes c h level ?e ns' = Some r3"
      and g3: "printNodes_go g c h level s1 ns' m2 = Some (r3, m3)" and f3: "frame m2 m3 s1" by auto
    have f13: "frame m1 m3 s1" using frame_trans[OF A(1) f2 f3] .
    have pn: "printNodes c h level (view m s) ns = (if fst ?r1 \<noteq> None then Some ?r1 else Option.bind
        (if Nodes (h ! x) \<noteq> [] then printNodes c h (level + 1) ?e (Nodes (h ! x)) else Some (emit []))
        (\<lambda>r2. if fst r2 \<noteq> None then Some (wseq ?r1 r2)
              else Option.bind (printNodes c h level ?e ns') (\<lambda>r3. Some (wseq (wseq ?r1 r2) r3))))"
      unfolding ns A(2) by (subst printNodes.simps) (simp add: Let_def)
    have pg: "printNodes_go g c h level s ns m = (if fst ?r1 \<noteq> None then Some (?r1, m1) else Option.bind
        (if Nodes (h ! x) \<noteq> [] then printNodes_go g c h (level + 1) s1 (Nodes (h ! x)) m1 else Some (emit [], m1))
        (\<lambda>(r2, m2). if fst r2 \<noteq> None then Some (wseq ?r1 r2, m2)
              else Option.bind (printNodes_go g c h level s1 ns' m2) (\<lambda>(r3, m3). Some (wseq (wseq ?r1 r2) r3, m3))))"
      unfolding ns by (subst printNodes_go.simps) (simp add: ms1 Let_def)
    have "frame m m1 s" by (rule A(3)[OF frame_refl])
    moreover have "frame m m2 s" by (rule A(3)[OF f2])
    moreover have "frame m m3 s" by (rule A(3)[OF f13])
    moreover obtain r1 where "?r1 = r1" by simp
    ultimately show ?thesis
      using pn[unfolded r2 r3] pg[unfolded g2] g3 by simp
  qed
qed


lemma nil_slice_ok: "slice_ok [] nil_slice" and view_nil_slice: "view [] nil_slice = []"
  by (simp_all add: slice_ok_def view_def nil_slice_def)

text \<open>The hazard is real: two appends to one header with spare capacity write the same
  element, so the slice the first append returned sees the second one's value.\<close>

lemma go_append_aliasing:
  "let s = \<lparr>sarr = 0, slen = 1, scap = 2\<rparr>; (m1, s1) = go_append g [[7, 0]] s 1; (m2, s2) = go_append g m1 s 2
   in view m1 s1 = [7, 1] \<and> view m2 s1 = [7, 2] \<and> view m2 s2 = [7, 2]"
  by (simp add: go_append_def view_def)

text \<open>C11: For every growth policy of append, the Go renderer, whose levelsEnded
  slices share backing arrays, writes the same output and reports the same panic as the
  renderer over immutable lists, on every node of a well-formed tree.\<close>

theorem Writer_go_eq:
  assumes wf: "wf_heap h" and n: "n < length h"
  shows "Writer_go g c h n = Writer c h n"
proof -
  obtain t where "repr h n t" using repr_exists[OF wf n] ..
  then obtain ts where k: "list_all2 (repr h) (Nodes (h ! n)) ts" by (auto elim: repr_elim)
  from printNodes_go_eq[OF k nil_slice_ok, of c 0 g] obtain r m' where
    "printNodes c h 0 [] (Nodes (h ! n)) = Some r" "printNodes_go g c h 0 nil_slice (Nodes (h ! n)) [] = Some (r, m')"
    by (auto simp: view_nil_slice)
  moreover obtain m0 s0 where "go_append g [] nil_slice 0 = (m0, s0)" by fastforce
  moreover from go_append_ok[OF nil_slice_ok this] have "view m0 s0 = [0]" by (simp add: view_nil_slice)
  ultimately show ?thesis
    by (cases "Root (h ! n)"; cases "Nodes (h ! n) = []")
      (simp_all add: Writer_go_def Writer_def Let_def view_nil_slice split: option.split)
qed

theorem Writer_go_eq_witness:
  "wf_heap ex_tree \<and> (0::nat) < length ex_tree \<and>
   Writer_go (\<lambda>k. 2 * k) (default_cfg fmt_gval) ex_tree 0 = Writer (default_cfg fmt_gval) ex_tree 0"
  using Writer_go_eq[of ex_tree 0 "\<lambda>k. 2 * k" "default_cfg fmt_gval"] wf_ex_tree
  by (simp add: ex_tree_eval)

end
