(* ===== verification/Spec2Isabelle.thy ===== *)
theory Spec2Isabelle
  imports Client Tags Slices
begin

text \<open>
  \<^bold>\<open>A verification development of treeprint\<close> (\<open>src/treeprint.go\<close>).

  \<^bold>\<open>The program.\<close> treeprint builds a tree of \<open>*Node\<close> values and renders
  it as text with box-drawing connectors. A \<open>Node\<close> has a \<open>Root\<close> pointer to
  its parent (nil for a tree's root and after \<open>Branch()\<close>), a \<open>Meta\<close> and a
  \<open>Value\<close> of type \<open>any\<close>, and the slice \<open>Nodes\<close> of its children. The
  methods of the \<open>Tree\<close> interface build the tree (\<open>New\<close>, \<open>NewWithRoot\<close>,
  \<open>AddNode\<close>, \<open>AddMetaNode\<close>, \<open>AddBranch\<close>, \<open>AddMetaBranch\<close>, \<open>Branch\<close>,
  \<open>SetValue\<close>, \<open>SetMetaValue\<close>), search it (\<open>FindLastNode\<close>,
  \<open>FindByMeta\<close>, \<open>FindByValue\<close>), traverse it (\<open>VisitAll\<close>) and render it
  (\<open>Writer\<close>, \<open>Bytes\<close>, \<open>String\<close>, through \<open>printNodes\<close>,
  \<open>printValues\<close>, \<open>renderValue\<close>, \<open>padding\<close>, \<open>isEnded\<close>, \<open>isLast\<close>). The
  renderer reads the package variables \<open>EdgeTypeLink\<close>, \<open>EdgeTypeMid\<close>,
  \<open>EdgeTypeEnd\<close> and \<open>IndentSize\<close>.

  \<^bold>\<open>Theories.\<close>
  \<^item> \<open>Prelude\<close>: Go interface values (\<open>'a any\<close>, \<open>None\<close> the nil
    interface, \<open>reflect.DeepEqual\<close> as equality), the \<open>%v\<close> formatting of
    string, int, bool and slice payloads, the runtime panics as the datatype
    \<open>error\<close>, \<open>strings.Repeat\<close>/\<open>Split\<close>/\<open>Join\<close>/\<open>HasPrefix\<close> as
    \<open>go_Repeat\<close>, \<open>go_Split\<close>, \<open>go_Join\<close>, \<open>go_HasPrefix\<close>, and the output sink \<open>wout\<close> (bytes written,
    and the panic that stopped the writer) with \<open>emit\<close>, \<open>wpanic\<close>, \<open>wseq\<close>,
    \<open>wbind\<close>.
  \<^item> \<open>Node\<close>: the struct as the record \<open>'a node\<close>; Go pointers as addresses
    into an arena \<open>'a heap\<close> (a node list; \<open>alloc\<close> appends), so aliasing
    and cycles are expressible. Each method that builds or mutates a tree is a
    definition of the same name taking the heap and the receiver's address and
    returning the new heap and its result. The abstract trees \<open>'a tree\<close> and the relation \<open>repr h p t\<close> (address
    \<open>p\<close> of heap \<open>h\<close> denotes \<open>t\<close>) give the heap its meaning;
    \<open>wf_heap\<close> is the shape invariant (children distinct, allocated after
    the parent, back pointers to the parent or nil) and \<open>linked\<close> says that
    every child's back pointer is its parent; \<open>desc\<close> is the descendant
    relation of the \<open>Nodes\<close> graph.
  \<^item> \<open>Search\<close>: \<open>FindByMeta\<close>, \<open>FindByValue\<close> and \<open>VisitAll\<close> as
    \<^theory_text>\<open>partial_function (option)\<close>s, \<open>None\<close> meaning the walk does not end,
    against pre-order searches and walks of the abstract trees.
  \<^item> \<open>Render\<close>: the configuration record \<open>'a cfg\<close> (the four package
    variables and the payload formatter), the renderer functions under their
    Go names, and the abstract specification \<open>spec_render\<close> of the text of a
    tree: per ancestor a segment (\<open>seg\<close>: a link and \<open>IndentSize\<close> spaces,
    or \<open>IndentSize + 1\<close> spaces below a last child), the connector, a space,
    the value with its continuation lines indented by the segments and one
    more segment. \<open>printNodes\<close> is a \<^theory_text>\<open>partial_function (option)\<close>; the
    loops of \<open>printValues\<close> and \<open>padding\<close> are functions terminating by a
    measure.
  \<^item> \<open>Tags\<close>: the struct-tag helpers \<open>tagSpec\<close> and \<open>filterTags\<close> as
    string functions (the loop of \<open>filterTags\<close> as \<open>filterTags_loop\<close>),
    with their behaviour against \<open>takeWhile\<close>/\<open>filter\<close>.
  \<^item> \<open>Client\<close>: a client of the API as a sequence of operations
    (\<open>api_op\<close>, \<open>api_step\<close>, \<open>run_ops\<close>), the heaps such clients reach
    (\<open>reachable\<close>, and \<open>reachable_linked\<close> when \<open>Branch()\<close> is called on
    roots only); and a client that keeps the \<open>Tree\<close> values methods return
    in variables, nil included, and calls any method on them, searches and
    \<open>String()\<close> included (\<open>tree_method\<close>, \<open>call\<close>, \<open>invoke\<close>,
    \<open>call_step\<close>, \<open>run_calls\<close>; a call on a nil \<open>Tree\<close> panics).
  \<^item> \<open>Slices\<close>: Go slices for the renderer's \<open>levelsEnded []int\<close>: a
    header \<open>slice\<close> (array, length, capacity) over a store \<open>arrays\<close> of
    backing arrays, \<open>append\<close> as \<open>go_append\<close> (in place within the capacity,
    otherwise a copy into a new array whose capacity a growth policy \<open>g\<close>
    chooses), and \<open>printNodes_go\<close>/\<open>Writer_go\<close>, the renderer threading that
    store in the order Go runs the calls.
  \<^item> this theory: the properties that span the components.

  \<^bold>\<open>What is proved.\<close>
  \<^item> Invariants of the client state machine: every API operation keeps
    \<open>wf_heap\<close>, so every heap a client builds is well formed
    (\<open>reachable_wf_heap\<close>); every node has at most one parent
    (\<open>reachable_owned\<close>, invariant \<open>owned\<close> of theory \<open>Node\<close>); its
    \<open>Nodes\<close> graph is acyclic (\<open>reachable_acyclic\<close>, over the descendant
    relation \<open>desc\<close>); every node a method returns is an allocated
    descendant of its receiver (\<open>reachable_results_descendants\<close>);
    \<open>Writer\<close>, \<open>FindByMeta\<close>, \<open>FindByValue\<close> and \<open>VisitAll\<close> (with a
    visitor that keeps the children) terminate from every node
    (\<open>reachable_terminates\<close>).
  \<^item> Clients with variables (theory \<open>Client\<close>): every such program returns
    (\<open>run_calls_terminates\<close>, by the invariant \<open>client_ok\<close>: a reachable
    heap and variables that hold allocated nodes or nil); one whose receivers
    are all bound by constructors never panics with a nil dereference
    (\<open>safe_calls_no_nil_panic\<close>).
  \<^item> Refinement of the renderer: when \<open>Branch()\<close> detaches no child,
    \<open>String()\<close> of a root is exactly \<open>spec_render\<close> of the tree it denotes
    (\<open>String_reachable_spec\<close>), so it has one line per node when no label
    holds a line break (\<open>String_one_line_per_node\<close>); \<open>String()\<close> of a
    node with a parent is \<open>spec_subtree\<close> of its tree when its values have
    one line (\<open>Render.String_subtree_spec\<close>). Both rest on one lemma,
    \<open>printNodes_chain\<close>, parametric in how the values below the rendered
    node render, and on \<open>linked_from\<close>, the part of \<open>linked\<close> below the
    rendered node that \<open>padding\<close> reads. After \<open>Branch()\<close> on any node,
    \<open>String()\<close> of that node is \<open>spec_render\<close> of its tree
    (\<open>Render.Branch_String_root\<close>). Rendering never panics with a nil
    dereference (\<open>Render.String_no_nil_dereference\<close>).
  \<^item> Tree building (theories \<open>Node\<close>, \<open>Search\<close>): the four \<open>Add...\<close> methods
    give the receiver's abstract tree one more last leaf and return the
    receiver or the new node (\<open>Node.Add_refines_tree\<close>, with
    \<open>AddBranch_last_child\<close> for the new node's fields); a node
    \<open>AddMetaBranch\<close> adds is what \<open>FindByMeta\<close> then finds, when nothing
    matched before (\<open>Search.AddMetaBranch_FindByMeta\<close>); \<open>VisitAll\<close> with a
    \<open>SetValue\<close> visitor sets exactly the descendants' values
    (\<open>Search.VisitAll_SetValue\<close>).
  \<^item> Search and traversal (theory \<open>Search\<close>): \<open>FindByMeta\<close> returns the first
    node of the pre-order of the subtree whose meta matches, and nil exactly
    when no descendant has it (\<open>FindByMeta_complete\<close>); \<open>VisitAll\<close>
    visits in pre-order (not breadth-first as its comment says) and reaches
    every descendant exactly once on a heap where each node has one parent
    (\<open>VisitAll_visits_every_descendant\<close>, the liveness property);
    \<open>FindByValue\<close> returns the first node in pre-order that is a child with
    the value or a node below the children with that metadata
    (\<open>FindByValue_first_preorder\<close>: line 151 calls \<open>FindByMeta\<close>); \<open>VisitAll\<close> never returns when the visitor adds a
    child to each node it visits (\<open>VisitAll_add_child_diverges\<close>, by the
    induction rule of the partial function).
  \<^item> Bounds and error paths (theory \<open>Render\<close>): \<open>padding\<close> of a node at
    level \<open>L\<close> is \<open>(L+1)(IndentSize+1)\<close> columns, \<open>IndentSize+1\<close> more than
    the segments before its connector (\<open>padding_width\<close>), so continuation
    lines of multi-line values are misaligned by one column with the default
    glyphs; \<open>String()\<close> of a node with a parent panics with an index out of
    range whenever a value below it has several lines
    (\<open>String_subtree_multiline_panics\<close>); an \<open>IndentSize\<close> below \<open>-1\<close>
    makes \<open>strings.Repeat\<close> panic (\<open>negative_indent_panics_general\<close>).
  \<^item> Struct-tag helpers (theory \<open>Tags\<close>): \<open>tagSpec\<close> and \<open>filterTags\<close>
    against \<open>takeWhile\<close>/\<open>filter\<close>.
  \<^item> Aliasing (theory \<open>Slices\<close>): a callee's \<open>append\<close> writes only at or
    beyond the length of the slice it was handed (\<open>frame\<close>), so no caller's
    \<open>levelsEnded\<close> changes under it, and the renderer over shared backing
    arrays prints exactly what the renderer over immutable lists prints, for
    every growth policy (\<open>Slices.Writer_go_eq\<close>); the other theories may
    therefore model \<open>levelsEnded\<close> as a list.

  \<^bold>\<open>Bounds and termination.\<close> No fuel is used: the walks over the pointer
  graph are partial functions (their equations are declared as code
  equations, so they evaluate), their termination is proved from
  \<open>wf_heap\<close> (children have larger addresses than their parents), and
  their non-termination, where it happens, from their induction rule; the
  counting loops of \<open>printValues\<close> and \<open>padding\<close> terminate by the measures
  \<open>nat (level - i)\<close> and \<open>nat (level + 1)\<close>. Column widths are counted
  with \<open>utf8_width\<close> (bytes that do not continue a UTF-8 character).

  \<^bold>\<open>Not modelled.\<close> The \<open>...f\<close> wrappers are modelled with
  \<open>fmt.Sprintf\<close> as a parameter: its format language is not modelled, and
  \<open>%v\<close> only for the payload kinds of \<open>gval\<close> (string, int, bool, and \<open>[]any\<close>
  slices of them) and the nil interface; floats, maps, structs and pointers
  are not modelled, and a nil slice is not told apart from an empty one
  (\<open>%v\<close> prints both as \<open>[]\<close>, but \<open>reflect.DeepEqual\<close> tells them apart). Write errors of the \<open>io.Writer\<close> are ignored by the code and are
  not modelled; \<open>IndentSize\<close> is an unbounded integer: the code's
  \<open>IndentSize+1\<close> (lines 231, 285) wraps when \<open>IndentSize = 2^63-1\<close>, and
  \<open>strings.Repeat\<close> of a huge count panics on length overflow or runs out
  of memory; only its negative-count panic is modelled. A nil receiver is modelled where a
  client holds a nil \<open>Tree\<close> (theory \<open>Client\<close>) and for \<open>isLast\<close>; a
  typed nil \<open>*Node\<close> inside a non-nil \<open>Tree\<close> is never produced by the
  package and is not modelled. \<open>VisitAll\<close> is not among a client's calls:
  its visitor is a Go closure, modelled in theory \<open>Search\<close> as a function
  of the heap and a state of the caller's.
  Concurrent use of a tree is out of the spec's scope.
\<close>

section \<open>Properties that span the components\<close>

text \<open>C1: Every tree a client builds with the API, calling Branch() on roots only, renders from any of its roots (a node whose Root is nil) with a non-negative IndentSize as exactly the text of the abstract specification of the tree the root denotes, without a panic: String() returns, and returns spec_render of that tree.\<close>

theorem String_reachable_spec:
  assumes "reachable_linked h" "r < length h" "Root (h ! r) = None" "0 \<le> IndentSize c"
  shows "\<exists>t. repr h r t \<and> String c h r = Some (Inr (spec_render c t))"
proof -
  from reachable_linked_inv[OF assms(1)] have wf: "wf_heap h" and lk: "linked h" by simp_all
  from repr_exists[OF wf assms(2)] obtain t where t: "repr h r t" by blast
  from Writer_refines_spec[OF wf linked_linked_from[OF wf lk assms(2)] assms(2,3) t assms(4)] t show ?thesis
    by (auto simp: String_def Bytes_def)
qed

theorem String_reachable_spec_witness:
  "\<exists>t. repr ex_tree 0 t \<and> String (default_cfg fmt_gval) ex_tree 0 = Some (Inr (spec_render (default_cfg fmt_gval) t))"
proof -
  have z: "(0::nat) < length ex_tree" "Root (ex_tree ! 0) = None" by (simp_all add: ex_tree_eval)
  show ?thesis
    using String_reachable_spec[OF reachable_linked_ex_tree z] by (simp add: default_cfg_def)
qed

text \<open>C2: Every heap a client builds with the API, from New/NewWithRoot and the Add..., Branch, SetValue and SetMetaValue methods on allocated nodes, is well formed: children are distinct, allocated after their parent, and point back to it or are detached, and every back pointer goes to an earlier node that lists the child.\<close>

theorem reachable_wf_heap: "reachable h \<Longrightarrow> wf_heap h"
proof (induction rule: reachable.induct)
  case reachable_init
  show ?case by (rule wf_heap_Nil)
next
  case (reachable_step h op)
  then show ?case using api_step_wf by blast
qed

theorem reachable_wf_heap_witness:
  "reachable (run_ops [] [ONew (Some (GStr ''.'')), OAddBranch 0 (Some (GStr ''A'')), OBranch 1])
   \<and> wf_heap (run_ops [] [ONew (Some (GStr ''.'')), OAddBranch 0 (Some (GStr ''A'')), OBranch 1])"
proof -
  let ?ops = "[ONew (Some (GStr ''.'')), OAddBranch 0 (Some (GStr ''A'')), OBranch 1]"
  have "ops_ok [] ?ops"
    by (simp add: op_ok_def NewWithRoot_def alloc_def AddBranch_def append_child_def)
  from run_ops_reachable[OF reachable_init this] have r: "reachable (run_ops [] ?ops)" .
  from r reachable_wf_heap[OF r] show ?thesis by blast
qed

text \<open>C4: On every heap a client builds, every node is listed as a child by at most one node: the children lists of two distinct nodes are disjoint, so the heap is a forest, as the spec's exclusive ownership of children asks.\<close>

theorem reachable_owned: "reachable h \<Longrightarrow> owned h"
proof (induction rule: reachable.induct)
  case reachable_init
  show ?case by (simp add: owned_def)
next
  case (reachable_step h op)
  with reachable_wf show ?case by (blast intro: api_step_owned)
qed

theorem reachable_owned_witness: "reachable ex_tree \<and> owned ex_tree"
  using reachable_owned[OF reachable_ex_tree] reachable_ex_tree by blast

text \<open>C20: Every tree a client builds, calling Branch() on roots only, renders from a root with one line per node when no glyph, no metadata and no value prints with a line break: String() returns a text with exactly one newline more than the root has descendants.\<close>

theorem String_one_line_per_node:
  assumes "reachable_linked h" "r < length h" "Root (h ! r) = None" "0 \<le> IndentSize c"
    and "NL \<notin> set (EdgeTypeLink c @ EdgeTypeMid c @ EdgeTypeEnd c)"
    and "\<forall>q < length h. NL \<notin> set (fmt_any (fmtv c) (Meta (h ! q))) \<and> NL \<notin> set (fmt_any (fmtv c) (Value (h ! q)))"
  shows "\<exists>s. String c h r = Some (Inr s) \<and> count_list s NL = Suc (card {q. desc h r q})"
proof -
  from reachable_linked_inv[OF assms(1)] have wf: "wf_heap h" and lk: "linked h" by simp_all
  from repr_exists[OF wf assms(2)] obtain t where t: "repr h r t" by blast
  obtain m v ks where tt: "t = Tr m v ks" by (cases t)
  from repr_labels[OF assms(6) t] tt have lab: "NL \<notin> set (fmt_any (fmtv c) m)" "NL \<notin> set (fmt_any (fmtv c) v)"
    "\<forall>k \<in> set ks. labels_one_line c k" by simp_all
  have "NL \<notin> set (case m of Some mm \<Rightarrow> ''['' @ fmtv c mm @ '']  '' | None \<Rightarrow> [])"
    using lab(1) by (auto simp: fmt_any_def split: option.splits)
  then have "count_list (spec_render c t) NL = Suc (length (paths_from 0 ks))"
    using count_spec_nodes[OF assms(5) lab(3), of "[]"] lab(2) tt by (simp add: spec_render_def count_notin)
  moreover have "String c h r = Some (Inr (spec_render c t))"
    using Writer_refines_spec[OF wf linked_linked_from[OF wf lk assms(2)] assms(2,3) t assms(4)] by (simp add: String_def Bytes_def)
  ultimately show ?thesis using card_desc[OF wf linked_owned[OF lk] t] tt by simp
qed

theorem String_one_line_per_node_witness:
  "\<exists>s. String (default_cfg fmt_gval) ex_tree 0 = Some (Inr s) \<and> count_list s NL = Suc (card {q. desc ex_tree 0 q})"
proof -
  have z: "(0::nat) < length ex_tree" "Root (ex_tree ! 0) = None" by (simp_all add: ex_tree_eval)
  have g: "NL \<notin> set (EdgeTypeLink (default_cfg fmt_gval) @ EdgeTypeMid (default_cfg fmt_gval) @ EdgeTypeEnd (default_cfg fmt_gval))"
    by (simp add: default_cfg_def)
  have l: "\<forall>q < length ex_tree. NL \<notin> set (fmt_any (fmtv (default_cfg fmt_gval)) (Meta (ex_tree ! q))) \<and>
     NL \<notin> set (fmt_any (fmtv (default_cfg fmt_gval)) (Value (ex_tree ! q)))"
    by (simp add: ex_tree_eval less_Suc_eq fmt_any_def default_cfg_def)
  show ?thesis using String_one_line_per_node[OF reachable_linked_ex_tree z _ g l] by (simp add: default_cfg_def)
qed

text \<open>C21: On every heap a client builds, every walk of the program over the pointer graph terminates from every allocated node: Writer (hence Bytes and String), FindByMeta, FindByValue, and VisitAll with a visitor that leaves every node's children as they are.\<close>

theorem reachable_terminates:
  assumes "reachable h" "p < length h"
  shows "(\<exists>y. Writer c h p = Some y) \<and> (\<exists>r. FindByMeta h p m = Some r) \<and> (\<exists>r. FindByValue h p v = Some r) \<and>
         (keeps_links fn \<longrightarrow> (\<exists>st. VisitAll fn p (h, s) = Some st))"
proof -
  have wf: "wf_heap h" using assms(1) by (rule reachable_wf)
  have "\<exists>y. Writer c h p = Some y" by (rule Writer_terminates[OF wf assms(2)])
  moreover have "\<exists>r. FindByMeta h p m = Some r" by (rule FindByMeta_terminates[OF wf assms(2)])
  moreover have "\<exists>r. FindByValue h p v = Some r" by (rule FindByValue_terminates[OF wf assms(2)])
  moreover have "keeps_links fn \<longrightarrow> (\<exists>st. VisitAll fn p (h, s) = Some st)"
    by (intro impI, rule VisitAll_terminates[OF wf assms(2)])
  ultimately show ?thesis by blast
qed

theorem reachable_terminates_witness:
  "(\<exists>y. Writer (default_cfg fmt_gval) ex_tree 0 = Some y) \<and> (\<exists>r. FindByMeta ex_tree 0 None = Some r) \<and>
   (\<exists>r. FindByValue ex_tree 0 None = Some r) \<and>
   (\<exists>st. VisitAll (\<lambda>q (st :: gval heap \<times> nat list). (fst st, snd st @ [q])) 0 (ex_tree, []) = Some st)"
proof -
  note r = reachable_ex_tree
  have z: "(0::nat) < length ex_tree" by (simp add: ex_tree_eval)
  have k: "keeps_links (\<lambda>q (st :: gval heap \<times> nat list). (fst st, snd st @ [q]))"
    by (simp add: keeps_links_def)
  from reachable_terminates[OF r z, where c = "default_cfg fmt_gval" and m = None and v = None
      and fn = "\<lambda>q (st :: gval heap \<times> nat list). (fst st, snd st @ [q])" and s = "[]"] k
  show ?thesis by blast
qed

text \<open>C3: On every heap a client builds, no node is its own descendant, and every descendant of a node is allocated after it: the pointer graph of Nodes is acyclic, so no walk over it can loop.\<close>

theorem reachable_acyclic:
  assumes "reachable h"
  shows "\<not> desc h p p \<and> (desc h p q \<longrightarrow> p < q \<and> q < length h)"
  using desc_wf[OF reachable_wf[OF assms]] by blast

theorem reachable_acyclic_witness:
  "reachable ex_tree \<and> desc ex_tree 0 2 \<and> \<not> desc ex_tree 0 0 \<and> (0::nat) < 2 \<and> 2 < length ex_tree"
proof -
  have d1: "desc ex_tree 0 1" by (rule desc_child) (simp_all add: ex_tree_eval)
  have d: "desc ex_tree 0 2" by (rule desc_step[OF d1]) (simp_all add: ex_tree_eval)
  from reachable_acyclic[OF reachable_ex_tree, of 0 2] reachable_ex_tree d show ?thesis by blast
qed

text \<open>C5: On every heap a client builds, every node a method returns is an allocated descendant of its receiver: FindLastNode's result, a node found by FindByMeta or FindByValue, and the new branch returned by AddBranch.\<close>

theorem reachable_results_descendants:
  assumes "reachable h" "p < length h"
  shows "(FindLastNode h p = Some q \<longrightarrow> desc h p q) \<and> (FindByMeta h p m = Some (Some q) \<longrightarrow> desc h p q) \<and>
         (FindByValue h p v = Some (Some q) \<longrightarrow> desc h p q) \<and> desc (fst (AddBranch h p a)) p (snd (AddBranch h p a))"
proof -
  have wf: "wf_heap h" using assms(1) by (rule reachable_wf)
  from repr_exists[OF wf assms(2)] obtain t where t: "repr h p t" by blast
  show ?thesis
    using FindLastNode_desc[OF assms(2)] FindByMeta_desc[OF t] FindByValue_desc[OF wf assms(2)]
      AddBranch_desc[OF assms(2)] by blast
qed

theorem reachable_results_descendants_witness:
  "reachable ex_tree \<and> (0::nat) < length ex_tree \<and> FindLastNode ex_tree 0 = Some 3 \<and> desc ex_tree 0 3 \<and>
   FindByMeta ex_tree 0 None = Some (Some 1) \<and> desc ex_tree 0 1 \<and>
   FindByValue ex_tree 0 (Some (GStr ''A'')) = Some (Some 1) \<and> desc (fst (AddBranch ex_tree 0 None)) 0 4"
proof -
  have z: "(0::nat) < length ex_tree" by (simp add: ex_tree_eval)
  have l: "FindLastNode ex_tree 0 = Some 3" by (simp add: ex_tree_eval FindLastNode_def)
  have m: "FindByMeta ex_tree 0 None = Some (Some 1)"
    by (simp add: ex_tree_eval FindByMeta_def findByMeta_loop.simps)
  have v: "FindByValue ex_tree 0 (Some (GStr ''A'')) = Some (Some 1)"
    by (simp add: ex_tree_eval FindByValue_def findByValue_loop.simps)
  have b: "snd (AddBranch ex_tree 0 None) = 4" by (simp add: ex_tree_eval AddBranch_eq)
  note R = reachable_results_descendants[OF reachable_ex_tree z]
  have d3: "desc ex_tree 0 3" using R[where q = 3 and m = None and v = None and a = None] l by blast
  have d1: "desc ex_tree 0 1" using R[where q = 1 and m = None and v = None and a = None] m by blast
  have d1': "desc ex_tree 0 1" using R[where q = 1 and m = None and v = "Some (GStr ''A'')" and a = None] v by blast
  have d4: "desc (fst (AddBranch ex_tree 0 None)) 0 4"
    using R[where q = 1 and m = None and v = None and a = None] b by simp
  from reachable_ex_tree z l d3 m d1 v d4 show ?thesis by blast
qed

end
